theory Spec2Isabelle
  imports Complex_Main "HOL-Library.Multiset" "HOL-Library.Sublist"
begin

section \<open>JavaScript strings and paths\<close>

text \<open>
  Strings are \<open>string\<close>: lists of characters with codes 0 to 255, read as the code units
  U+0000 to U+00FF of a JavaScript string. Code units above U+00FF, among them the line
  terminators U+2028 and U+2029, lie outside the character type.
\<close>

definition is_digit :: "char \<Rightarrow> bool" where
  "is_digit c = (c \<in> set ''0123456789'')"

text \<open>
  The case folding of the \<open>i\<close> flag on the ASCII letters, which is all of it for the literals
  of \<open>dateRegex\<close>: no character other than the two cases of an ASCII letter matches it.
\<close>

definition lower_char :: "char \<Rightarrow> char" where
  "lower_char c =
     (case map_of (zip ''ABCDEFGHIJKLMNOPQRSTUVWXYZ'' ''abcdefghijklmnopqrstuvwxyz'') c of
        None \<Rightarrow> c
      | Some d \<Rightarrow> d)"

definition fold_ascii :: "string \<Rightarrow> string" where
  "fold_ascii s = map lower_char s"

text \<open>
  \<open>String.prototype.toLowerCase\<close> on the code units U+0000 to U+00FF: the upper-case letters
  are \<open>A\<close> to \<open>Z\<close> and U+00C0 to U+00DE without the multiplication sign U+00D7, and each
  has its lower-case letter 32 places further on. Every other code unit stays.
\<close>

definition toLowerCase_char :: "char \<Rightarrow> char" where
  "toLowerCase_char c =
     (let n = of_char c :: nat
      in if (65 \<le> n \<and> n \<le> 90) \<or> (192 \<le> n \<and> n \<le> 222 \<and> n \<noteq> 215) then char_of (n + 32)
         else c)"

definition toLowerCase :: "string \<Rightarrow> string" where
  "toLowerCase s = map toLowerCase_char s"

text \<open>The characters the regular-expression dot refuses: line feed and carriage return.\<close>

definition line_terminator :: "char \<Rightarrow> bool" where
  "line_terminator c = (c = CHR 0x0A \<or> c = CHR 0x0D)"

text \<open>
  \<open>path.basename(p)\<close> (POSIX, no suffix argument): trailing slashes are skipped, then the
  characters back to the previous slash are the result.
\<close>

definition basename :: "string \<Rightarrow> string" where
  "basename p = rev (takeWhile (\<lambda>c. c \<noteq> CHR ''/'') (dropWhile (\<lambda>c. c = CHR ''/'') (rev p)))"

section \<open>Regular expressions\<close>

text \<open>
  The fragment of JavaScript regular expressions that \<open>dateRegex\<close> uses. The pattern is
  anchored at both ends (\<open>^ ... $\<close> without the \<open>m\<close> flag), so \<open>test\<close> asks whether the
  whole string is matched. Under the \<open>i\<close> flag a literal matches both cases of its letter.
\<close>

datatype rexp =
    Never
  | Eps
  | Lit char
  | Digit
  | Dot
  | Alt rexp rexp
  | Seq rexp rexp
  | Star rexp

fun nullable :: "rexp \<Rightarrow> bool" where
  "nullable Never = False"
| "nullable Eps = True"
| "nullable (Lit c) = False"
| "nullable Digit = False"
| "nullable Dot = False"
| "nullable (Alt r s) = (nullable r \<or> nullable s)"
| "nullable (Seq r s) = (nullable r \<and> nullable s)"
| "nullable (Star r) = True"

text \<open>
  Matching by derivatives: \<open>deriv ci c r\<close> matches what \<open>r\<close> matches after a leading \<open>c\<close>
  (\<open>ci\<close> is the \<open>i\<close> flag).
\<close>

fun deriv :: "bool \<Rightarrow> char \<Rightarrow> rexp \<Rightarrow> rexp" where
  "deriv ci c Never = Never"
| "deriv ci c Eps = Never"
| "deriv ci c (Lit d) =
     (if (if ci then lower_char c = lower_char d else c = d) then Eps else Never)"
| "deriv ci c Digit = (if is_digit c then Eps else Never)"
| "deriv ci c Dot = (if line_terminator c then Never else Eps)"
| "deriv ci c (Alt r s) = Alt (deriv ci c r) (deriv ci c s)"
| "deriv ci c (Seq r s) =
     (if nullable r then Alt (Seq (deriv ci c r) s) (deriv ci c s)
      else Seq (deriv ci c r) s)"
| "deriv ci c (Star r) = Seq (deriv ci c r) (Star r)"

fun regex_test :: "bool \<Rightarrow> rexp \<Rightarrow> string \<Rightarrow> bool" where
  "regex_test ci r [] = nullable r"
| "regex_test ci r (c # cs) = regex_test ci (deriv ci c r) cs"

fun lits :: "string \<Rightarrow> rexp" where
  "lits [] = Eps"
| "lits (c # cs) = Seq (Lit c) (lits cs)"

fun times :: "nat \<Rightarrow> rexp \<Rightarrow> rexp" where
  "times 0 r = Eps"
| "times (Suc n) r = Seq r (times n r)"

fun alts :: "rexp list \<Rightarrow> rexp" where
  "alts [] = Never"
| "alts [r] = r"
| "alts (r # rs) = Alt r (alts rs)"

section \<open>fileSearch.ts\<close>

datatype error =
    FgError string
  | SpawnError string
  | TypeError string
  | RangeError string
  | Error string

datatype colour = Plain | Yellow | Red | Green | Cyan

type_synonym console_line = "colour \<times> string"

record fg_options =
  cwd :: string
  absolute :: bool
  caseSensitiveMatch :: bool
  onlyFiles :: bool

text \<open>
  \<open>fast-glob\<close> is a library outside the repository: the call \<open>fg(patterns, options)\<close> is a
  parameter of the model. It either rejects with an error or resolves with the list of paths
  found, in the order of its enumeration.
\<close>

type_synonym glob = "string list \<Rightarrow> fg_options \<Rightarrow> error + string list"

text \<open>\<open>/^[0-9]{8}.*\.(jpg|jpeg|png)$/i\<close>\<close>

definition dateRegex :: rexp where
  "dateRegex =
     Seq (times 8 Digit)
       (Seq (Star Dot)
         (Seq (Lit (CHR ''.'')) (alts [lits ''jpg'', lits ''jpeg'', lits ''png''])))"

definition dateRegex_test :: "string \<Rightarrow> bool" where
  "dateRegex_test s = regex_test True dateRegex s"

text \<open>
  A JavaScript \<open>Map\<close> keeps its entries in insertion order: an association list, where
  \<open>set\<close> of a present key replaces the value in place and \<open>set\<close> of a new key appends.
\<close>

type_synonym ('k, 'v) jsmap = "('k \<times> 'v) list"

definition Map_has :: "('k, 'v) jsmap \<Rightarrow> 'k \<Rightarrow> bool" where
  "Map_has m k = (k \<in> set (map fst m))"

fun Map_set :: "('k, 'v) jsmap \<Rightarrow> 'k \<Rightarrow> 'v \<Rightarrow> ('k, 'v) jsmap" where
  "Map_set [] k v = [(k, v)]"
| "Map_set ((k', v') # m) k v = (if k' = k then (k, v) # m else (k', v') # Map_set m k v)"

definition Map_values :: "('k, 'v) jsmap \<Rightarrow> 'v list" where
  "Map_values m = map snd m"

text \<open>The \<open>for ... of\<close> loop over \<open>matchedFiles\<close>, with its two mutable collections.\<close>

fun dedup_loop ::
  "(string, string) jsmap \<Rightarrow> string list \<Rightarrow> string list \<Rightarrow> (string, string) jsmap \<times> string list"
where
  "dedup_loop seenBasenames duplicates [] = (seenBasenames, duplicates)"
| "dedup_loop seenBasenames duplicates (filePath # rest) =
     (let base = toLowerCase (basename filePath) in
      if \<not> Map_has seenBasenames base
      then dedup_loop (Map_set seenBasenames base filePath) duplicates rest
      else dedup_loop seenBasenames (duplicates @ [filePath]) rest)"

definition duplicate_notice :: "string list \<Rightarrow> console_line list" where
  "duplicate_notice duplicates =
     (if length duplicates > 0
      then [(Yellow, CHR 0x0A # ''Duplicate filenames detected (these will be skipped):'')]
           @ map (\<lambda>dup. (Yellow, dup)) duplicates @ [(Plain, '''')]
      else [])"

definition matchedFiles :: "string list \<Rightarrow> string list" where
  "matchedFiles allFoundFiles = filter (\<lambda>file. dateRegex_test (basename file)) allFoundFiles"

text \<open>
  \<open>searchForImages(directory, extensions)\<close>: the lines written to the console and either the
  error the glob call rejected with or the paths returned.
\<close>

definition patterns :: "string list \<Rightarrow> string list" where
  "patterns extensions = map (\<lambda>ext. ''**/*'' @ ext) extensions"

definition options :: "string \<Rightarrow> fg_options" where
  "options directory =
     \<lparr>cwd = directory, absolute = True, caseSensitiveMatch = False, onlyFiles = True\<rparr>"

definition searchForImages ::
  "glob \<Rightarrow> string \<Rightarrow> string list \<Rightarrow> console_line list \<times> (error + string list)"
where
  "searchForImages fg directory extensions =
     (case fg (patterns extensions) (options directory) of
        Inl e \<Rightarrow> ([], Inl e)
      | Inr allFoundFiles \<Rightarrow>
          (let (seenBasenames, duplicates) = dedup_loop [] [] (matchedFiles allFoundFiles)
           in (duplicate_notice duplicates, Inr (Map_values seenBasenames))))"

section \<open>JavaScript numbers and dates\<close>

text \<open>
  The numbers met in \<open>prompts.ts\<close> are integers or \<open>NaN\<close>: \<open>int option\<close>, with \<open>None\<close> for
  \<open>NaN\<close>. The source computes in double precision, which is exact on integers of magnitude
  up to \<open>2^53\<close>; the theorems that depend on it carry that bound as a hypothesis.
\<close>

type_synonym jsnum = "int option"

text \<open>White space and line terminators among the code units up to U+00FF.\<close>

definition strWhiteSpaceChar :: "char \<Rightarrow> bool" where
  "strWhiteSpaceChar c =
     (c \<in> set [CHR 0x09, CHR 0x0A, CHR 0x0B, CHR 0x0C, CHR 0x0D, CHR '' '', CHR 0xA0])"

fun index_of :: "char \<Rightarrow> string \<Rightarrow> nat option" where
  "index_of c [] = None"
| "index_of c (d # ds) = (if c = d then Some 0 else map_option Suc (index_of c ds))"

definition digit_value :: "char \<Rightarrow> nat option" where
  "digit_value c = index_of (lower_char c) ''0123456789abcdefghijklmnopqrstuvwxyz''"

definition radix_digit :: "nat \<Rightarrow> char \<Rightarrow> bool" where
  "radix_digit R c = (case digit_value c of None \<Rightarrow> False | Some v \<Rightarrow> v < R)"

definition digits_value :: "nat \<Rightarrow> string \<Rightarrow> nat" where
  "digits_value R Z = foldl (\<lambda>acc c. acc * R + the (digit_value c)) 0 Z"

text \<open>
  \<open>parseInt(string, radix)\<close>; radix \<open>0\<close> stands for a missing radix. Leading white space is
  skipped, a sign is read, a \<open>0x\<close> prefix selects radix 16 when the radix is missing or 16,
  and the longest prefix of digits is the number; without a digit the result is \<open>NaN\<close>. It
  never throws. The number is exact here; the source rounds it to a double, which changes
  it only above \<open>2^53\<close>.
\<close>

definition parseInt :: "string \<Rightarrow> nat \<Rightarrow> jsnum" where
  "parseInt string radix =
     (let S = dropWhile strWhiteSpaceChar string;
          sign = (if S \<noteq> [] \<and> hd S = CHR ''-'' then - 1 else 1 :: int);
          S = (if S \<noteq> [] \<and> (hd S = CHR ''+'' \<or> hd S = CHR ''-'') then tl S else S)
      in if radix \<noteq> 0 \<and> (radix < 2 \<or> 36 < radix) then None
         else
           (let stripPrefix = (radix = 0 \<or> radix = 16);
                hex = (stripPrefix \<and> (take 2 S = ''0x'' \<or> take 2 S = ''0X''));
                R = (if hex then 16 else if radix = 0 then 10 else radix);
                S = (if hex then drop 2 S else S);
                Z = takeWhile (radix_digit R) S
            in if Z = [] then None else Some (sign * int (digits_value R Z))))"

text \<open>\<open>s.slice(a, b)\<close> for indices \<open>0 \<le> a\<close>, \<open>0 \<le> b\<close>.\<close>

definition slice :: "string \<Rightarrow> nat \<Rightarrow> nat \<Rightarrow> string" where
  "slice s a b = take (b - a) (drop a s)"

text \<open>
  A \<open>Date\<close> object is its time value: milliseconds since the epoch in UTC, or \<open>NaN\<close> for an
  invalid date.
\<close>

datatype jsdate = Invalid_Date | Time_Value int

definition getTime :: "jsdate \<Rightarrow> jsnum" where
  "getTime d = (case d of Invalid_Date \<Rightarrow> None | Time_Value t \<Rightarrow> Some t)"

definition msPerDay :: int where
  "msPerDay = 1000 * 60 * 60 * 24"

definition InLeapYear :: "int \<Rightarrow> bool" where
  "InLeapYear y = (y mod 4 = 0 \<and> (y mod 400 = 0 \<or> y mod 100 \<noteq> 0))"

definition DayFromYear :: "int \<Rightarrow> int" where
  "DayFromYear y =
     365 * (y - 1970) + (y - 1969) div 4 - (y - 1901) div 100 + (y - 1601) div 400"

text \<open>The day of the year on which month \<open>mn\<close> (0 to 11) begins.\<close>

definition month_start :: "bool \<Rightarrow> nat \<Rightarrow> int" where
  "month_start leap mn =
     [0, 31, 59, 90, 120, 151, 181, 212, 243, 273, 304, 334] ! mn
     + (if leap \<and> 2 \<le> mn then 1 else 0)"

text \<open>
  \<open>MakeDay(year, month, date)\<close>: the month is carried into the year (\<open>ym\<close>, \<open>mn\<close>), the day
  number of the first of that month is found, and the date is added to it.
\<close>

definition MakeDay :: "int \<Rightarrow> int \<Rightarrow> int \<Rightarrow> int" where
  "MakeDay year month date =
     (let ym = year + month div 12;
          mn = nat (month mod 12)
      in DayFromYear ym + month_start (InLeapYear ym) mn + date - 1)"

definition TimeClip :: "int \<Rightarrow> jsdate" where
  "TimeClip t = (if \<bar>t\<bar> \<le> 8640000000000000 then Time_Value t else Invalid_Date)"

text \<open>
  \<open>new Date(year, month, day)\<close>. The fields are read in local time; \<open>utc\<close> is the
  environment's conversion of a local time value to UTC (its time zone), a parameter of the
  model. A year from 0 to 99 means 1900 to 1999. A \<open>NaN\<close> field gives an invalid date; the
  constructor never throws.
\<close>

definition newDate :: "(int \<Rightarrow> int) \<Rightarrow> jsnum \<Rightarrow> jsnum \<Rightarrow> jsnum \<Rightarrow> jsdate" where
  "newDate utc year month day =
     (case (year, month, day) of
        (Some y, Some m, Some dt) \<Rightarrow>
          (let yr = (if 0 \<le> y \<and> y \<le> 99 then 1900 + y else y)
           in TimeClip (utc (MakeDay yr m dt * msPerDay)))
      | _ \<Rightarrow> Invalid_Date)"

text \<open>\<open>new Date(0)\<close>\<close>

definition epoch :: jsdate where
  "epoch = Time_Value 0"

text \<open>An environment whose local time is UTC.\<close>

definition utc_zone :: "int \<Rightarrow> int" where
  "utc_zone t = t"

section \<open>prompts.ts: parseDates and dayDifference\<close>

text \<open>
  The body of the \<open>try\<close> block in \<open>parseDates\<close>: it returns the date built, or the error
  thrown. None of its operations throws.
\<close>

definition try_parse :: "(int \<Rightarrow> int) \<Rightarrow> string \<Rightarrow> error + jsdate" where
  "try_parse utc dateStr =
     (let year = parseInt (slice dateStr 0 4) 0;
          month = map_option (\<lambda>m. m - 1) (parseInt (slice dateStr 4 6) 0);
          day = parseInt (slice dateStr 6 8) 0
      in Inr (newDate utc year month day))"

record item =
  fp :: string
  dateVal :: jsdate

text \<open>
  The \<open>try ... catch\<close> statement around it: the date the block built, or, when the block
  threw, \<open>new Date(0)\<close> from the \<open>catch\<close> clause.
\<close>

definition catch_fallback :: "error + jsdate \<Rightarrow> jsdate" where
  "catch_fallback attempt = (case attempt of Inl e \<Rightarrow> epoch | Inr d \<Rightarrow> d)"

text \<open>The callback of \<open>filePaths.map\<close>.\<close>

definition parse_item :: "(int \<Rightarrow> int) \<Rightarrow> string \<Rightarrow> item" where
  "parse_item utc path =
     (let base = basename path;
          dateStr = slice base 0 8;
          dv = catch_fallback (try_parse utc dateStr)
      in \<lparr>fp = path, dateVal = dv\<rparr>)"

text \<open>\<open>a.dateVal.getTime() - b.dateVal.getTime()\<close>: \<open>NaN\<close> when either date is invalid.\<close>

definition by_dateVal :: "item \<Rightarrow> item \<Rightarrow> jsnum" where
  "by_dateVal a b =
     (case (getTime (dateVal a), getTime (dateVal b)) of
        (Some x, Some y) \<Rightarrow> Some (x - y)
      | _ \<Rightarrow> None)"

text \<open>
  \<open>Array.prototype.sort(comparefn)\<close>. The language requires a stable sort, and reads a
  \<open>NaN\<close> from the comparison function as \<open>+0\<close> (\<open>SortCompare\<close>). The order is fixed by that
  whenever the function is a consistent comparison; the model is the stable insertion sort.
  When the function is not consistent (some date is invalid) the language leaves the order
  to the implementation, and the model's order is one of the permitted ones.
\<close>

definition SortCompare :: "('a \<Rightarrow> 'a \<Rightarrow> jsnum) \<Rightarrow> 'a \<Rightarrow> 'a \<Rightarrow> int" where
  "SortCompare comparefn x y = (case comparefn x y of None \<Rightarrow> 0 | Some v \<Rightarrow> v)"

fun sort_insert :: "('a \<Rightarrow> 'a \<Rightarrow> jsnum) \<Rightarrow> 'a \<Rightarrow> 'a list \<Rightarrow> 'a list" where
  "sort_insert comparefn x [] = [x]"
| "sort_insert comparefn x (y # ys) =
     (if SortCompare comparefn x y \<le> 0 then x # y # ys
      else y # sort_insert comparefn x ys)"

fun Array_sort :: "('a \<Rightarrow> 'a \<Rightarrow> jsnum) \<Rightarrow> 'a list \<Rightarrow> 'a list" where
  "Array_sort comparefn [] = []"
| "Array_sort comparefn (x # xs) = sort_insert comparefn x (Array_sort comparefn xs)"

record parsed =
  sortedFiles :: "string list"
  earliestDate :: jsdate
  latestDate :: jsdate

text \<open>
  \<open>parseDates(filePaths)\<close>. On the empty list \<open>items[0]\<close> is \<open>undefined\<close> and reading its
  \<open>dateVal\<close> throws a \<open>TypeError\<close>.
\<close>

definition parseDates :: "(int \<Rightarrow> int) \<Rightarrow> string list \<Rightarrow> error + parsed" where
  "parseDates utc filePaths =
     (let items = Array_sort by_dateVal (map (parse_item utc) filePaths);
          sortedPaths = map fp items
      in if items = []
         then Inl (TypeError ''Cannot read properties of undefined'')
         else Inr \<lparr>sortedFiles = sortedPaths, earliestDate = dateVal (hd items),
                    latestDate = dateVal (last items)\<rparr>)"

text \<open>
  \<open>Math.ceil(x / y)\<close> for integers \<open>x\<close> and \<open>y > 0\<close>, in exact arithmetic. The source
  subtracts and divides doubles: the difference of two time values is exact when it is at
  most \<open>2^53\<close> in magnitude (dates less than 285000 years apart), and the quotient by the
  milliseconds of a day, if not whole, is then further than half a unit in the last place
  from every whole number, so that rounding it does not change its ceiling. Beyond that
  bound the source may differ from this definition.
\<close>

definition ceil_div :: "int \<Rightarrow> int \<Rightarrow> int" where
  "ceil_div x y = - ((- x) div y)"

definition dayDifference :: "jsdate \<Rightarrow> jsdate \<Rightarrow> jsnum" where
  "dayDifference d1 d2 =
     (case (getTime d2, getTime d1) of
        (Some t2, Some t1) \<Rightarrow> (let diffMs = t2 - t1 in Some (ceil_div diffMs (1000 * 60 * 60 * 24)))
      | _ \<Rightarrow> None)"

section \<open>Numbers and dates as text\<close>

text \<open>
  \<open>String(n)\<close> for \<open>NaN\<close> and for an integer \<open>n\<close> of magnitude up to \<open>2^53\<close>, where every
  integer is a double and is printed with all its digits. Larger numbers are printed
  rounded, and from \<open>10^21\<close> in exponent notation: there the source differs from this
  definition.
\<close>

definition digit_char :: "nat \<Rightarrow> char" where
  "digit_char n = ''0123456789'' ! (n mod 10)"

fun nat_toString :: "nat \<Rightarrow> string" where
  "nat_toString n = (if n < 10 then [digit_char n] else nat_toString (n div 10) @ [digit_char n])"

definition int_toString :: "int \<Rightarrow> string" where
  "int_toString i = (if i < 0 then CHR ''-'' # nat_toString (nat (- i)) else nat_toString (nat i))"

definition Number_toString :: "jsnum \<Rightarrow> string" where
  "Number_toString x = (case x of None \<Rightarrow> ''NaN'' | Some i \<Rightarrow> int_toString i)"

text \<open>\<open>String(n).padStart(w, '0')\<close> for a natural number.\<close>

definition pad :: "nat \<Rightarrow> nat \<Rightarrow> string" where
  "pad w n = replicate (w - length (nat_toString n)) (CHR ''0'') @ nat_toString n"

text \<open>
  The civil date (year, month 1 to 12, day of month) of a day number counted from the epoch.
\<close>

definition civil_from_days :: "int \<Rightarrow> int \<times> int \<times> int" where
  "civil_from_days z =
     (let z' = z + 719468;
          era = z' div 146097;
          doe = z' mod 146097;
          yoe = (doe - doe div 1460 + doe div 36524 - doe div 146096) div 365;
          doy = doe - (365 * yoe + yoe div 4 - yoe div 100);
          mp = (5 * doy + 2) div 153;
          d = doy - (153 * mp + 2) div 5 + 1;
          m = (if mp < 10 then mp + 3 else mp - 9);
          y = yoe + era * 400 + (if m \<le> 2 then 1 else 0)
      in (y, m, d))"

text \<open>
  \<open>date.toISOString()\<close>: \<open>YYYY-MM-DDTHH:mm:ss.sssZ\<close> in UTC, with a signed six-digit year
  outside 0 to 9999. On an invalid date it throws a \<open>RangeError\<close>.
\<close>

definition toISOString :: "jsdate \<Rightarrow> error + string" where
  "toISOString date =
     (case date of
        Invalid_Date \<Rightarrow> Inl (RangeError ''Invalid time value'')
      | Time_Value t \<Rightarrow>
          (let (y, m, d) = civil_from_days (t div msPerDay);
               ms = nat (t mod msPerDay);
               year = (if 0 \<le> y \<and> y \<le> 9999 then pad 4 (nat y)
                       else (if y < 0 then CHR ''-'' else CHR ''+'') # pad 6 (nat \<bar>y\<bar>))
           in Inr (year @ ''-'' @ pad 2 (nat m) @ ''-'' @ pad 2 (nat d) @ ''T''
                   @ pad 2 (ms div 3600000) @ '':'' @ pad 2 (ms div 60000 mod 60) @ '':''
                   @ pad 2 (ms div 1000 mod 60) @ ''.'' @ pad 3 (ms mod 1000) @ ''Z'')))"

section \<open>montageBuilder.ts\<close>

record MontageOptions =
  files :: "string list"
  imagesPerRow :: jsnum
  resolution :: string
  outputFile :: string

text \<open>
  What a child process reports to its listeners, in order: \<open>'error'\<close> with the error, or
  \<open>'close'\<close> with the exit code (\<open>null\<close> when a signal ended the process). The operating
  system and the program run are outside the repository: \<open>spawn(command, args, ...)\<close> is a
  parameter of the model that gives the events of the child it starts.
\<close>

datatype child_event = ErrorEvent error | CloseEvent "int option"

type_synonym spawner = "string \<Rightarrow> string list \<Rightarrow> child_event list"

datatype promise = Pending | Resolved | Rejected error

text \<open>The two listeners of \<open>runCommand\<close>: what each event does to the promise.\<close>

definition on_event :: "string \<Rightarrow> child_event \<Rightarrow> promise" where
  "on_event command ev =
     (case ev of
        ErrorEvent err \<Rightarrow> Rejected err
      | CloseEvent code \<Rightarrow>
          if code = Some 0 then Resolved
          else Rejected (Error (command @ '' exited with code ''
                 @ (case code of None \<Rightarrow> ''null'' | Some c \<Rightarrow> int_toString c))))"

text \<open>A promise is settled by the first call of \<open>resolve\<close> or \<open>reject\<close>; later calls do nothing.\<close>

fun settle :: "promise list \<Rightarrow> promise" where
  "settle [] = Pending"
| "settle (p # ps) = p"

text \<open>
  \<open>runCommand(command, args)\<close>: the processes spawned (command and arguments) and the state
  the promise ends in.
\<close>

definition runCommand ::
  "spawner \<Rightarrow> string \<Rightarrow> string list \<Rightarrow> (string \<times> string list) list \<times> promise"
where
  "runCommand spawn command args =
     ([(command, args)], settle (map (on_event command) (spawn command args)))"

definition createMontage ::
  "spawner \<Rightarrow> MontageOptions \<Rightarrow> (string \<times> string list) list \<times> promise"
where
  "createMontage spawn opts =
     (let tileArg = Number_toString (imagesPerRow opts) @ ''x'';
          geometryArg = resolution opts @ ''+0+0'';
          args = files opts @
            [''-tile'', tileArg, ''-geometry'', geometryArg, ''-background'', ''white'',
             ''+frame'', ''+shadow'', ''+label'', outputFile opts]
      in runCommand spawn ''montage'' args)"

section \<open>prompts.ts: runCli\<close>

text \<open>The operator's answers to the prompts, in the order asked; a prompt not reached is not read.\<close>

record answers =
  ans_correctDir :: bool
  ans_chosenDir :: string
  ans_extensions :: "string list"
  ans_imagesPerRow :: string
  ans_chosenResolution :: string
  ans_outputName :: string
  ans_outputType :: string

text \<open>
  The environment of a run: the working directory of the process, \<open>path.resolve\<close>, the glob
  library over the file system, the time zone and the process spawner.
\<close>

record env =
  env_cwd :: string
  env_resolve :: "string list \<Rightarrow> string"
  env_fg :: glob
  env_utc :: "int \<Rightarrow> int"
  env_spawn :: spawner

text \<open>The calls \<open>runCli\<close> makes into the three components, in order.\<close>

datatype step = Call_searchForImages | Call_parseDates | Call_createMontage

record run =
  console :: "console_line list"
  console_error :: "(console_line \<times> error) list"
  spawned :: "(string \<times> string list) list"
  steps :: "step list"
  outcome :: promise

text \<open>
  \<open>Math.ceil(sortedFiles.length / imagesPerRowNum)\<close> as printed: division by zero gives
  \<open>Infinity\<close> (the list is not empty here), \<open>NaN\<close> stays \<open>NaN\<close>.
\<close>

definition rowEstimate_text :: "nat \<Rightarrow> jsnum \<Rightarrow> string" where
  "rowEstimate_text len imagesPerRowNum =
     (case imagesPerRowNum of
        None \<Rightarrow> ''NaN''
      | Some n \<Rightarrow> if n = 0 then ''Infinity'' else int_toString (- ((- int len) div n)))"

text \<open>Steps 4 to 8 of \<open>runCli\<close>, reached with a non-empty list of images.\<close>

definition runCli_with_images ::
  "env \<Rightarrow> answers \<Rightarrow> string \<Rightarrow> console_line list \<Rightarrow> string list \<Rightarrow> run"
where
  "runCli_with_images e ans workingDir out foundImages =
     (case parseDates (env_utc e) foundImages of
        Inl err \<Rightarrow>
          \<lparr>console = out, console_error = [], spawned = [],
           steps = [Call_searchForImages, Call_parseDates], outcome = Rejected err\<rparr>
      | Inr parsedData \<Rightarrow>
          (let numberOfDays = dayDifference (earliestDate parsedData) (latestDate parsedData);
               out1 = out @ [(Green, ''Found a total of ''
                         @ int_toString (int (length (sortedFiles parsedData))) @ '' images.'')]
           in case toISOString (earliestDate parsedData) of
                Inl err \<Rightarrow>
                  \<lparr>console = out1, console_error = [], spawned = [],
                   steps = [Call_searchForImages, Call_parseDates], outcome = Rejected err\<rparr>
              | Inr earliest \<Rightarrow>
                  (let out2 = out1 @ [(Green, ''Earliest date: '' @ slice earliest 0 10)]
                   in case toISOString (latestDate parsedData) of
                        Inl err \<Rightarrow>
                          \<lparr>console = out2, console_error = [], spawned = [],
                           steps = [Call_searchForImages, Call_parseDates],
                           outcome = Rejected err\<rparr>
                      | Inr latest \<Rightarrow>
                          (let imagesPerRowNum = parseInt (ans_imagesPerRow ans) 10;
                               outputPath =
                                 env_resolve e [workingDir, ans_outputName ans @ ans_outputType ans];
                               out3 = out2 @
                                 [(Green, ''Latest date:   '' @ slice latest 0 10),
                                  (Green, ''Number of days: '' @ Number_toString numberOfDays
                                     @ [CHR 0x0A]),
                                  (Cyan, CHR 0x0A # ''With '' @ Number_toString imagesPerRowNum
                                     @ '' images per row, you would have approximately ''
                                     @ rowEstimate_text (length (sortedFiles parsedData))
                                         imagesPerRowNum
                                     @ '' rows.'' @ [CHR 0x0A]),
                                  (Cyan, CHR 0x0A # ''Creating image grid: '' @ outputPath
                                     @ [CHR 0x0A])];
                               (procs, result) =
                                 createMontage (env_spawn e)
                                   \<lparr>files = sortedFiles parsedData, imagesPerRow = imagesPerRowNum,
                                    resolution = ans_chosenResolution ans, outputFile = outputPath\<rparr>;
                               all_steps = [Call_searchForImages, Call_parseDates, Call_createMontage]
                           in case result of
                                Resolved \<Rightarrow>
                                  \<lparr>console = out3 @
                                     [(Green, ''Success! Created output file at: '' @ outputPath)],
                                   console_error = [], spawned = procs, steps = all_steps,
                                   outcome = Resolved\<rparr>
                              | Rejected err \<Rightarrow>
                                  \<lparr>console = out3,
                                   console_error = [((Red, ''Error while creating montage:''), err)],
                                   spawned = procs, steps = all_steps, outcome = Resolved\<rparr>
                              | Pending \<Rightarrow>
                                  \<lparr>console = out3, console_error = [], spawned = procs,
                                   steps = all_steps, outcome = Pending\<rparr>))))"

text \<open>\<open>runCli()\<close>: steps 1 to 3 and the early return when no image is found.\<close>

definition runCli :: "env \<Rightarrow> answers \<Rightarrow> run" where
  "runCli e ans =
     (let workingDir =
            (if \<not> ans_correctDir ans then env_resolve e [ans_chosenDir ans] else env_cwd e);
          out0 = [(Cyan, CHR 0x0A # ''All files should be in yyyymmdd*.{ext} format.''
                     @ [CHR 0x0A])];
          (notice, found) = searchForImages (env_fg e) workingDir (ans_extensions ans)
      in case found of
           Inl err \<Rightarrow>
             \<lparr>console = out0 @ notice, console_error = [], spawned = [],
              steps = [Call_searchForImages], outcome = Rejected err\<rparr>
         | Inr foundImages \<Rightarrow>
             if length foundImages = 0
             then \<lparr>console = out0 @ notice @
                      [(Red, ''No images found matching the given extensions.'')],
                   console_error = [], spawned = [], steps = [Call_searchForImages],
                   outcome = Resolved\<rparr>
             else runCli_with_images e ans workingDir (out0 @ notice) foundImages)"

text \<open>Environments and answers for the examples.\<close>

definition spawn_exits :: "int \<Rightarrow> spawner" where
  "spawn_exits code command args = [CloseEvent (Some code)]"


definition resolve_join :: "string list \<Rightarrow> string" where
  "resolve_join parts = (case parts of [d, f] \<Rightarrow> d @ ''/'' @ f | _ \<Rightarrow> concat parts)"

definition photos_env :: "glob \<Rightarrow> spawner \<Rightarrow> env" where
  "photos_env g s =
     \<lparr>env_cwd = ''/photos'', env_resolve = resolve_join, env_fg = g, env_utc = utc_zone,
      env_spawn = s\<rparr>"

definition default_answers :: answers where
  "default_answers =
     \<lparr>ans_correctDir = True, ans_chosenDir = ''/photos'', ans_extensions = [''.jpg''],
      ans_imagesPerRow = ''25'', ans_chosenResolution = ''64x48'',
      ans_outputName = ''image-grid'', ans_outputType = ''.jpg''\<rparr>"

section \<open>Auxiliary notions for the proofs\<close>

text \<open>The language of a regular expression, against which the matcher is proved correct.\<close>

definition conc :: "string set \<Rightarrow> string set \<Rightarrow> string set" where
  "conc A B = {u @ v | u v. u \<in> A \<and> v \<in> B}"

inductive_set star :: "string set \<Rightarrow> string set" for A :: "string set" where
  star_nil: "[] \<in> star A"
| star_app: "u \<in> A \<Longrightarrow> v \<in> star A \<Longrightarrow> u @ v \<in> star A"

definition same_char :: "bool \<Rightarrow> char \<Rightarrow> char \<Rightarrow> bool" where
  "same_char ci c d = (if ci then lower_char c = lower_char d else c = d)"

fun lang :: "bool \<Rightarrow> rexp \<Rightarrow> string set" where
  "lang ci Never = {}"
| "lang ci Eps = {[]}"
| "lang ci (Lit d) = {[c] | c. same_char ci c d}"
| "lang ci Digit = {[c] | c. is_digit c}"
| "lang ci Dot = {[c] | c. \<not> line_terminator c}"
| "lang ci (Alt r s) = lang ci r \<union> lang ci s"
| "lang ci (Seq r s) = conc (lang ci r) (lang ci s)"
| "lang ci (Star r) = star (lang ci r)"

definition ends_with_nocase :: "string \<Rightarrow> string \<Rightarrow> bool" where
  "ends_with_nocase ext b =
     (length ext \<le> length b \<and> fold_ascii (drop (length b - length ext) b) = fold_ascii ext)"

definition name_shape :: "string list \<Rightarrow> string \<Rightarrow> bool" where
  "name_shape es b =
     (\<exists>d m e. b = d @ m @ CHR ''.'' # e \<and> length d = 8 \<and> (\<forall>c\<in>set d. is_digit c) \<and>
        (\<forall>c\<in>set m. \<not> line_terminator c) \<and> (\<exists>x\<in>set es. fold_ascii e = fold_ascii x))"

definition name_regex :: "string list \<Rightarrow> rexp" where
  "name_regex es =
     Seq (times 8 Digit) (Seq (Star Dot) (Seq (Lit (CHR ''.'')) (alts (map lits es))))"

fun firsts :: "('a \<Rightarrow> 'k) \<Rightarrow> 'k set \<Rightarrow> 'a list \<Rightarrow> 'a list" where
  "firsts key S [] = []"
| "firsts key S (x # xs) =
     (if key x \<in> S then firsts key S xs else x # firsts key (insert (key x) S) xs)"

fun laters :: "('a \<Rightarrow> 'k) \<Rightarrow> 'k set \<Rightarrow> 'a list \<Rightarrow> 'a list" where
  "laters key S [] = []"
| "laters key S (x # xs) =
     (if key x \<in> S then x # laters key S xs else laters key (insert (key x) S) xs)"

definition file_key :: "string \<Rightarrow> string" where
  "file_key filePath = toLowerCase (basename filePath)"

text \<open>
  The filename acceptance rule in the specification's words:
  \<open>^[0-9]{8}.*\.(ext1|ext2|...)$\<close>, matched case-insensitively, where the alternatives are
  the allowed extensions without their leading dot.
\<close>

definition acceptance_rule :: "string list \<Rightarrow> string \<Rightarrow> bool" where
  "acceptance_rule extensions base = regex_test True (name_regex (map tl extensions)) base"

text \<open>
  \<open>fast-glob\<close> for a root that does not exist: the directory walk's \<open>ENOENT\<close> is
  suppressed by the library, so the call resolves with no entries.
\<close>

definition fg_missing_root :: glob where
  "fg_missing_root pats opts = Inr []"

text \<open>
  \<open>fast-glob\<close> for a root that is a regular file: reading it as a directory fails and the
  call rejects.
\<close>

definition fg_root_is_file :: glob where
  "fg_root_is_file pats opts = Inl (FgError ''ENOTDIR: not a directory, scandir'')"


text \<open>Three files of a trip, two of them of the same day.\<close>

definition fg_trip :: glob where
  "fg_trip pats opts =
     Inr [''/trip/b/20210110.jpg'', ''/trip/a/20210101_b.jpg'', ''/trip/a/20210101_a.jpg'']"

text \<open>A small tree for the examples: the files under \<open>/photos\<close> in enumeration order.\<close>

definition fg_photos :: glob where
  "fg_photos pats opts =
     (if cwd opts = ''/photos'' \<and> pats = [''**/*.jpg'']
      then Inr [''/photos/a/20210102_x.jpg'', ''/photos/a/notes.jpg'',
                ''/photos/b/20210102_X.JPG'', ''/photos/b/20210101.jpg'']
      else Inr [])"

text \<open>The comparison \<open>d1 <= d2\<close> of two dates: false as soon as one of them is invalid.\<close>

definition date_le :: "jsdate \<Rightarrow> jsdate \<Rightarrow> bool" where
  "date_le d1 d2 =
     (case (getTime d1, getTime d2) of (Some t1, Some t2) \<Rightarrow> t1 \<le> t2 | _ \<Rightarrow> False)"

text \<open>The parsed date of a path, and its time value (0 stands in for an invalid date).\<close>

definition parsedDate :: "(int \<Rightarrow> int) \<Rightarrow> string \<Rightarrow> jsdate" where
  "parsedDate utc path = dateVal (parse_item utc path)"

definition time_of :: "jsdate \<Rightarrow> int" where
  "time_of d = (case d of Invalid_Date \<Rightarrow> 0 | Time_Value t \<Rightarrow> t)"

text \<open>The number of days of month \<open>month\<close> (any integer, carried into the year) of \<open>year\<close>.\<close>

definition DaysInMonth :: "int \<Rightarrow> int \<Rightarrow> int" where
  "DaysInMonth year month =
     (let ym = year + month div 12;
          mn = nat (month mod 12)
      in [31, if InLeapYear ym then 29 else 28, 31, 30, 31, 30, 31, 31, 30, 31, 30, 31] ! mn)"

text \<open>
  The calendar, counted out: the days of a year, the days from 1 January 1970 to 1 January
  of a year (negative before 1970), and the days of a year before its month \<open>k\<close>
  (0 to 11).
\<close>

definition DaysInYear :: "int \<Rightarrow> int" where
  "DaysInYear y = (if InLeapYear y then 366 else 365)"

definition days_to_year :: "int \<Rightarrow> int" where
  "days_to_year y =
     (if 1970 \<le> y then sum_list (map (\<lambda>j. DaysInYear (1970 + int j)) [0..<nat (y - 1970)])
      else - sum_list (map (\<lambda>j. DaysInYear (y + int j)) [0..<nat (1970 - y)]))"

definition days_to_month :: "int \<Rightarrow> nat \<Rightarrow> int" where
  "days_to_month y k = sum_list (map (\<lambda>i. DaysInMonth y (int i)) [0..<k])"

text \<open>The year the constructor takes for a year field: 0 to 99 mean 1900 to 1999.\<close>

definition full_year :: "int \<Rightarrow> int" where
  "full_year y = (if 0 \<le> y \<and> y \<le> 99 then 1900 + y else y)"

section \<open>Regular expressions: the matcher decides the language\<close>

lemma nullable_lang: "nullable r \<longleftrightarrow> [] \<in> lang ci r"
  by (induction r) (auto simp: conc_def intro: star.star_nil)

lemma star_cons:
  "c # w \<in> star A \<longleftrightarrow> (\<exists>u v. w = u @ v \<and> c # u \<in> A \<and> v \<in> star A)"
proof
  assume "c # w \<in> star A"
  then show "\<exists>u v. w = u @ v \<and> c # u \<in> A \<and> v \<in> star A"
  proof (induction "c # w" arbitrary: w rule: star.induct)
    case (star_app u v)
    show ?case
    proof (cases u)
      case Nil
      with star_app show ?thesis by simp
    next
      case (Cons a u')
      with star_app.hyps(1,2,4) show ?thesis by auto
    qed
  qed
next
  assume "\<exists>u v. w = u @ v \<and> c # u \<in> A \<and> v \<in> star A"
  then obtain u v where "w = u @ v" "c # u \<in> A" "v \<in> star A" by blast
  then show "c # w \<in> star A"
    using star.star_app [of "c # u" A v] by simp
qed

lemma conc_cons:
  "c # w \<in> conc A B \<longleftrightarrow>
     (\<exists>u v. w = u @ v \<and> c # u \<in> A \<and> v \<in> B) \<or> ([] \<in> A \<and> c # w \<in> B)"
  unfolding conc_def
  by (auto simp: Cons_eq_append_conv)

lemma conc_iff: "w \<in> conc A B \<longleftrightarrow> (\<exists>u v. w = u @ v \<and> u \<in> A \<and> v \<in> B)"
  unfolding conc_def by blast

lemma deriv_lang: "w \<in> lang ci (deriv ci c r) \<longleftrightarrow> c # w \<in> lang ci r"
proof (induction r arbitrary: w)
  case (Seq r s)
  have "w \<in> lang ci (deriv ci c (Seq r s)) \<longleftrightarrow>
          (\<exists>u v. w = u @ v \<and> c # u \<in> lang ci r \<and> v \<in> lang ci s)
          \<or> (nullable r \<and> c # w \<in> lang ci s)"
    using Seq by (auto simp: conc_iff)
  also have "\<dots> \<longleftrightarrow> c # w \<in> lang ci (Seq r s)"
    by (simp add: conc_cons nullable_lang [of _ ci])
  finally show ?case .
next
  case (Star r)
  have "w \<in> lang ci (deriv ci c (Star r)) \<longleftrightarrow>
          (\<exists>u v. w = u @ v \<and> c # u \<in> lang ci r \<and> v \<in> star (lang ci r))"
    using Star by (auto simp: conc_iff)
  also have "\<dots> \<longleftrightarrow> c # w \<in> lang ci (Star r)"
    by (simp add: star_cons)
  finally show ?case .
qed (auto simp: same_char_def)

lemma regex_test_lang: "regex_test ci r s \<longleftrightarrow> s \<in> lang ci r"
  by (induction s arbitrary: r) (auto simp: nullable_lang [of _ ci] deriv_lang)

lemma conc_single:
  "s \<in> conc {[c] | c. P c} B \<longleftrightarrow> (\<exists>c t. s = c # t \<and> P c \<and> t \<in> B)"
proof
  assume "s \<in> conc {[c] | c. P c} B"
  then show "\<exists>c t. s = c # t \<and> P c \<and> t \<in> B"
    unfolding conc_def by auto
next
  assume "\<exists>c t. s = c # t \<and> P c \<and> t \<in> B"
  then obtain c t where "s = [c] @ t" "P c" "t \<in> B" by auto
  then show "s \<in> conc {[c] | c. P c} B"
    unfolding conc_def by blast
qed

lemma lang_times_Digit:
  "s \<in> lang ci (times n Digit) \<longleftrightarrow> length s = n \<and> (\<forall>c\<in>set s. is_digit c)"
proof (induction n arbitrary: s)
  case 0
  show ?case by auto
next
  case (Suc n)
  show ?case
    by (cases s) (auto simp: conc_single Suc)
qed

lemma star_Dot: "s \<in> star {[c] | c. \<not> line_terminator c} \<longleftrightarrow> (\<forall>c\<in>set s. \<not> line_terminator c)"
proof (induction s)
  case Nil
  show ?case by (simp add: star.star_nil)
next
  case (Cons a s)
  show ?case
    by (auto simp: star_cons Cons)
qed

lemma lang_lits: "s \<in> lang True (lits w) \<longleftrightarrow> fold_ascii s = fold_ascii w"
proof (induction w arbitrary: s)
  case Nil
  show ?case by (auto simp: fold_ascii_def)
next
  case (Cons a w)
  show ?case
    by (cases s) (auto simp: conc_single Cons same_char_def fold_ascii_def)
qed

lemma lang_alts: "s \<in> lang ci (alts rs) \<longleftrightarrow> (\<exists>r\<in>set rs. s \<in> lang ci r)"
  by (induction rs rule: alts.induct) auto

lemma lower_char_dot: "lower_char c = CHR ''.'' \<longleftrightarrow> c = CHR ''.''"
  by (auto simp: lower_char_def split: option.splits if_splits)

lemma lower_char_of_dot: "lower_char (CHR ''.'') = CHR ''.''"
  by (simp add: lower_char_def)

lemma lang_tail:
  "s \<in> lang True (Seq (Lit (CHR ''.'')) (alts (map lits es))) \<longleftrightarrow>
     (\<exists>e. s = CHR ''.'' # e \<and> (\<exists>x\<in>set es. fold_ascii e = fold_ascii x))"
proof -
  have "s \<in> lang True (Seq (Lit (CHR ''.'')) (alts (map lits es))) \<longleftrightarrow>
          (\<exists>c t. s = c # t \<and> same_char True c (CHR ''.'') \<and> t \<in> lang True (alts (map lits es)))"
    by (simp only: lang.simps conc_single)
  then show ?thesis
    by (auto simp: lang_alts lang_lits same_char_def lower_char_of_dot lower_char_dot)
qed

lemma name_regex_shape: "regex_test True (name_regex es) b \<longleftrightarrow> name_shape es b"
proof -
  have "b \<in> lang True (name_regex es) \<longleftrightarrow>
          (\<exists>d v. b = d @ v \<and> d \<in> lang True (times 8 Digit) \<and>
             (\<exists>m t. v = m @ t \<and> m \<in> lang True (Star Dot) \<and>
                t \<in> lang True (Seq (Lit (CHR ''.'')) (alts (map lits es)))))"
    unfolding name_regex_def lang.simps(7) conc_iff ..
  also have "\<dots> \<longleftrightarrow> name_shape es b"
    unfolding lang_tail lang_times_Digit name_shape_def
    by (simp add: star_Dot) blast
  finally show ?thesis
    by (simp add: regex_test_lang)
qed

lemma line_terminator_lower: "line_terminator c \<Longrightarrow> lower_char c = c"
  unfolding line_terminator_def by (elim disjE) (simp_all add: lower_char_def)

lemma lower_exts: "y \<in> set [''jpg'', ''jpeg'', ''png''] \<Longrightarrow> fold_ascii y = y"
  by (auto simp: fold_ascii_def lower_char_def)

lemma ext_chars_plain:
  assumes "fold_ascii e = fold_ascii y" "y \<in> set [''jpg'', ''jpeg'', ''png'']" "c \<in> set e"
  shows "\<not> line_terminator c"
proof
  assume lt: "line_terminator c"
  from assms(3) have "lower_char c \<in> set (fold_ascii e)"
    by (simp add: fold_ascii_def)
  then have "c \<in> set y"
    using lt assms(1) lower_exts [OF assms(2)] line_terminator_lower [OF lt] by simp
  with assms(2) lt show False
    unfolding line_terminator_def by auto
qed

lemma shape_restrict:
  assumes shape: "name_shape [''jpg'', ''jpeg'', ''png''] b"
    and ends: "ends_with_nocase (CHR ''.'' # x) b"
  shows "name_shape [x] b"
proof -
  from shape obtain d m e y where b: "b = d @ m @ CHR ''.'' # e" and d: "length d = 8"
    and dig: "\<forall>c\<in>set d. is_digit c" and m: "\<forall>c\<in>set m. \<not> line_terminator c"
    and y: "y \<in> set [''jpg'', ''jpeg'', ''png'']" and e: "fold_ascii e = fold_ascii y"
    unfolding name_shape_def by blast
  define k where "k = length b - Suc (length x)"
  from ends have len: "Suc (length x) \<le> length b"
    and low: "fold_ascii (drop k b) = fold_ascii (CHR ''.'' # x)"
    by (simp_all add: ends_with_nocase_def k_def)
  from len have klt: "k < length b" by (simp add: k_def)
  then obtain c e2 where suf: "drop k b = c # e2"
    by (cases "drop k b") auto
  from low have c: "c = CHR ''.''" and e2: "fold_ascii e2 = fold_ascii x"
    unfolding suf by (simp_all add: fold_ascii_def lower_char_of_dot lower_char_dot)
  have "b ! k = hd (drop k b)"
    using klt by (simp add: hd_drop_conv_nth)
  then have bk: "b ! k = CHR ''.''"
    by (simp add: suf c)
  have k8: "8 \<le> k"
  proof (rule ccontr)
    assume "\<not> 8 \<le> k"
    then have "k < length d" using d by simp
    then have "b ! k \<in> set d" by (simp add: b nth_append)
    with dig have "is_digit (b ! k)" by blast
    then show False by (simp add: bk is_digit_def)
  qed
  define m2 where "m2 = take (k - 8) (m @ CHR ''.'' # e)"
  have tk: "take k b = d @ m2"
    using k8 d by (simp add: b m2_def)
  have "b = take k b @ drop k b" by simp
  also have "\<dots> = (d @ m2) @ (c # e2)" by (simp only: tk suf)
  finally have split: "b = d @ m2 @ CHR ''.'' # e2" by (simp add: c)
  have sub: "set m2 \<subseteq> set (m @ CHR ''.'' # e)"
    unfolding m2_def by (rule set_take_subset)
  have dot: "\<not> line_terminator (CHR ''.'')"
    by (simp add: line_terminator_def)
  have ee: "\<forall>c\<in>set e. \<not> line_terminator c"
    using ext_chars_plain [OF e y] by blast
  have m2: "\<forall>c\<in>set m2. \<not> line_terminator c"
  proof
    fix c assume "c \<in> set m2"
    with sub have "c \<in> set m \<or> c = CHR ''.'' \<or> c \<in> set e" by auto
    with m dot ee show "\<not> line_terminator c" by blast
  qed
  have "\<exists>z\<in>set [x]. fold_ascii e2 = fold_ascii z" using e2 by simp
  with split d dig m2 show ?thesis
    unfolding name_shape_def by blast
qed

section \<open>The deduplication loop\<close>

lemma Map_set_new: "\<not> Map_has m k \<Longrightarrow> Map_set m k v = m @ [(k, v)]"
  by (induction m) (auto simp: Map_has_def)

lemma dedup_loop_firsts:
  "dedup_loop seen dups xs =
     (seen @ map (\<lambda>x. (file_key x, x)) (firsts file_key (set (map fst seen)) xs),
      dups @ laters file_key (set (map fst seen)) xs)"
proof (induction xs arbitrary: seen dups)
  case Nil
  show ?case by simp
next
  case (Cons x xs)
  show ?case
  proof (cases "Map_has seen (file_key x)")
    case True
    then show ?thesis
      by (simp add: Cons file_key_def Map_has_def)
  next
    case False
    then show ?thesis
      by (simp add: Cons Map_set_new file_key_def [symmetric]) (simp add: Map_has_def Let_def)
  qed
qed

lemma firsts_keys: "p \<in> set (firsts key S xs) \<Longrightarrow> key p \<notin> S \<and> p \<in> set xs"
  by (induction xs arbitrary: S) (auto split: if_splits)








section \<open>The Image Locator\<close>

lemma dateRegex_name_regex: "dateRegex = name_regex [''jpg'', ''jpeg'', ''png'']"
  by (simp add: dateRegex_def name_regex_def)

lemma dateRegex_test_shape: "dateRegex_test b \<longleftrightarrow> name_shape [''jpg'', ''jpeg'', ''png''] b"
  by (simp add: dateRegex_test_def dateRegex_name_regex name_regex_shape)

lemma name_shape_mono: "name_shape [x] b \<Longrightarrow> x \<in> set es \<Longrightarrow> name_shape es b"
  unfolding name_shape_def by auto

lemma searchForImages_Inr:
  "fg (patterns extensions) (options directory) = Inr allFoundFiles \<Longrightarrow>
   searchForImages fg directory extensions =
     (duplicate_notice (laters file_key {} (matchedFiles allFoundFiles)),
      Inr (firsts file_key {} (matchedFiles allFoundFiles)))"
  by (simp add: searchForImages_def dedup_loop_firsts Map_values_def comp_def)

lemma searchForImages_Inl:
  "fg (patterns extensions) (options directory) = Inl e \<Longrightarrow>
   searchForImages fg directory extensions = ([], Inl e)"
  by (simp add: searchForImages_def)


text \<open>
  Claim C1, as amended. \<open>searchForImages\<close> makes no check of the root directory: it fails
  exactly when the glob call fails, and then with the glob's own error; and whenever the glob
  call succeeds and no file found matches the date pattern it returns the empty list and
  writes nothing to the console.
\<close>

theorem searchForImages_error_only_from_glob:
  "(snd (searchForImages fg directory extensions) = Inl e \<longleftrightarrow>
      fg (patterns extensions) (options directory) = Inl e) \<and>
   (fg (patterns extensions) (options directory) = Inr allFoundFiles \<and>
      matchedFiles allFoundFiles = [] \<longrightarrow>
      searchForImages fg directory extensions = ([], Inr []))"
proof (cases "fg (patterns extensions) (options directory)")
  case (Inl e')
  then show ?thesis by (simp add: searchForImages_Inl)
next
  case (Inr fs)
  then show ?thesis by (auto simp: searchForImages_Inr duplicate_notice_def)
qed

text \<open>
  Claim C1 as stated fails: for a root that does not exist the glob library reports no
  entries and no error, and the locator returns the empty result instead of signalling
  \<open>DirectoryNotFound\<close>.
\<close>

theorem searchForImages_missing_root_counterexample:
  "searchForImages fg_missing_root ''/no/such/dir'' [''.jpg''] = ([], Inr [])"
  by (simp add: searchForImages_def fg_missing_root_def matchedFiles_def duplicate_notice_def
      Map_values_def)

text \<open>Claim C1, witness: a root that is a regular file, and a root without images.\<close>

theorem searchForImages_error_only_from_glob_witness:
  "snd (searchForImages fg_root_is_file ''/photos/a.txt'' [''.jpg'']) =
     Inl (FgError ''ENOTDIR: not a directory, scandir'') \<and>
   searchForImages fg_photos ''/empty'' [''.jpg''] = ([], Inr [])"
proof -
  have a: "fg_root_is_file (patterns [''.jpg'']) (options ''/photos/a.txt'') =
      Inl (FgError ''ENOTDIR: not a directory, scandir'')"
    by (simp add: fg_root_is_file_def)
  have b: "fg_photos (patterns [''.jpg'']) (options ''/empty'') = Inr [] \<and> matchedFiles [] = []"
    by (simp add: fg_photos_def options_def matchedFiles_def)
  from searchForImages_error_only_from_glob
    [of fg_root_is_file "''/photos/a.txt''" "[''.jpg'']" "FgError ''ENOTDIR: not a directory, scandir''"]
    a
  have "snd (searchForImages fg_root_is_file ''/photos/a.txt'' [''.jpg'']) =
     Inl (FgError ''ENOTDIR: not a directory, scandir'')" by blast
  moreover from searchForImages_error_only_from_glob
    [of fg_photos "''/empty''" "[''.jpg'']" _ "[]"] b
  have "searchForImages fg_photos ''/empty'' [''.jpg''] = ([], Inr [])" by blast
  ultimately show ?thesis by simp
qed

text \<open>
  Claim C2. Given that the glob call returns only files whose basename ends, ignoring case,
  in one of the selected extensions (what the patterns \<open>**/*ext\<close> with
  \<open>caseSensitiveMatch: false\<close> ask of it) and that each extension starts with a dot, the
  locator returns without error, every path returned has a basename that satisfies the
  acceptance rule \<open>^[0-9]{8}.*\.(ext1|ext2|...)$\<close> for the selected extensions, and no
  file whose basename fails the rule is returned.
\<close>

theorem searchForImages_result_matches_pattern:
  assumes found: "fg (patterns extensions) (options directory) = Inr allFoundFiles"
    and glob: "\<forall>file\<in>set allFoundFiles. \<exists>ext\<in>set extensions. ends_with_nocase ext (basename file)"
    and dots: "\<forall>ext\<in>set extensions. ext \<noteq> [] \<and> hd ext = CHR ''.''"
  shows "\<exists>log result. searchForImages fg directory extensions = (log, Inr result) \<and>
           (\<forall>p\<in>set result. acceptance_rule extensions (basename p)) \<and>
           (\<forall>file. \<not> acceptance_rule extensions (basename file) \<longrightarrow> file \<notin> set result)"
proof -
  let ?result = "firsts file_key {} (matchedFiles allFoundFiles)"
  have ok: "acceptance_rule extensions (basename p)" if p: "p \<in> set ?result" for p
  proof -
    from p have "p \<in> set (matchedFiles allFoundFiles)"
      by (simp add: firsts_keys)
    then have inp: "p \<in> set allFoundFiles" and re: "dateRegex_test (basename p)"
      by (simp_all add: matchedFiles_def)
    from glob inp obtain ext where ext: "ext \<in> set extensions"
      and ends: "ends_with_nocase ext (basename p)" by blast
    from dots ext obtain x where x: "ext = CHR ''.'' # x"
      by (cases ext) auto
    from re have "name_shape [''jpg'', ''jpeg'', ''png''] (basename p)"
      by (simp add: dateRegex_test_shape)
    with ends x have "name_shape [x] (basename p)"
      by (simp add: shape_restrict)
    moreover have "x \<in> set (map tl extensions)"
      using ext x by force
    ultimately have "name_shape (map tl extensions) (basename p)"
      by (rule name_shape_mono)
    then show ?thesis
      by (simp add: acceptance_rule_def name_regex_shape)
  qed
  have "searchForImages fg directory extensions =
      (duplicate_notice (laters file_key {} (matchedFiles allFoundFiles)), Inr ?result)"
    using found by (rule searchForImages_Inr)
  moreover have "\<forall>p\<in>set ?result. acceptance_rule extensions (basename p)"
    using ok by blast
  moreover have "\<forall>file. \<not> acceptance_rule extensions (basename file) \<longrightarrow> file \<notin> set ?result"
    using ok by blast
  ultimately show ?thesis by blast
qed


text \<open>The example tree, run through the locator.\<close>

lemma fg_photos_run:
  "searchForImages fg_photos ''/photos'' [''.jpg''] =
     (duplicate_notice [''/photos/b/20210102_X.JPG''],
      Inr [''/photos/a/20210102_x.jpg'', ''/photos/b/20210101.jpg''])"
  by code_simp

text \<open>Claim C2, witness: the example tree with the extension \<open>.jpg\<close>.\<close>

theorem searchForImages_result_matches_pattern_witness:
  "acceptance_rule [''.jpg''] (basename ''/photos/a/20210102_x.jpg'') \<and>
   acceptance_rule [''.jpg''] (basename ''/photos/b/20210101.jpg'') \<and>
   \<not> acceptance_rule [''.jpg''] (basename ''/photos/a/notes.jpg'') \<and>
   snd (searchForImages fg_photos ''/photos'' [''.jpg'']) =
     Inr [''/photos/a/20210102_x.jpg'', ''/photos/b/20210101.jpg'']"
proof -
  let ?found = "[''/photos/a/20210102_x.jpg'', ''/photos/a/notes.jpg'',
                ''/photos/b/20210102_X.JPG'', ''/photos/b/20210101.jpg'']"
  have found: "fg_photos (patterns [''.jpg'']) (options ''/photos'') = Inr ?found"
    by (simp add: fg_photos_def patterns_def options_def)
  have glob: "\<forall>file\<in>set ?found. \<exists>ext\<in>set [''.jpg'']. ends_with_nocase ext (basename file)"
    by code_simp
  have dots: "\<forall>ext\<in>set [''.jpg'']. ext \<noteq> [] \<and> hd ext = CHR ''.''"
    by simp
  from searchForImages_result_matches_pattern
    [where fg = fg_photos and extensions = "[''.jpg'']" and directory = "''/photos''",
      OF found glob dots]
  obtain log result where run: "searchForImages fg_photos ''/photos'' [''.jpg''] = (log, Inr result)"
    and ok: "\<forall>p\<in>set result. acceptance_rule [''.jpg''] (basename p)"
    by blast
  from run have result: "result = [''/photos/a/20210102_x.jpg'', ''/photos/b/20210101.jpg'']"
    by (simp add: fg_photos_run)
  have "\<not> acceptance_rule [''.jpg''] (basename ''/photos/a/notes.jpg'')"
    by code_simp
  with ok run show ?thesis
    unfolding result by simp
qed




section \<open>parseInt on digits, and the calendar\<close>

lemma digit_cases: "is_digit c \<Longrightarrow> c \<in> set ''0123456789''"
  by (simp add: is_digit_def)

lemma digit_plain:
  assumes "is_digit c"
  shows "\<not> strWhiteSpaceChar c" "c \<noteq> CHR ''-''" "c \<noteq> CHR ''+''" "c \<noteq> CHR ''x''" "c \<noteq> CHR ''X''"
  using digit_cases [OF assms] by (auto simp: strWhiteSpaceChar_def)

lemma digit_value_digit:
  assumes "is_digit c"
  shows "digit_value c \<noteq> None \<and> the (digit_value c) \<le> 9"
  using digit_cases [OF assms]
  by (simp; elim disjE; simp add: digit_value_def lower_char_def)

lemma digit_radix10: "is_digit c \<Longrightarrow> radix_digit 10 c"
  using digit_value_digit [of c] by (auto simp: radix_digit_def split: option.splits)

lemma parseInt_digits:
  assumes "ds \<noteq> []" "\<forall>c\<in>set ds. is_digit c"
  shows "parseInt ds 0 = Some (int (digits_value 10 ds))"
proof -
  from assms obtain c cs where ds: "ds = c # cs" and c: "is_digit c"
    and cs: "\<forall>c\<in>set cs. is_digit c"
    by (cases ds) auto
  have ws: "dropWhile strWhiteSpaceChar ds = ds"
    using digit_plain(1) [OF c] by (simp add: ds)
  have nohex: "take 2 ds \<noteq> ''0x''" "take 2 ds \<noteq> ''0X''"
  proof -
    show "take 2 ds \<noteq> ''0x''"
    proof
      assume "take 2 ds = ''0x''"
      then have "CHR ''x'' \<in> set ds"
        by (metis in_set_takeD list.set_intros(1) list.set_intros(2))
      with assms(2) have "is_digit (CHR ''x'')" by blast
      then show False by (simp add: is_digit_def)
    qed
    show "take 2 ds \<noteq> ''0X''"
    proof
      assume "take 2 ds = ''0X''"
      then have "CHR ''X'' \<in> set ds"
        by (metis in_set_takeD list.set_intros(1) list.set_intros(2))
      with assms(2) have "is_digit (CHR ''X'')" by blast
      then show False by (simp add: is_digit_def)
    qed
  qed
  have all: "takeWhile (radix_digit 10) ds = ds"
    using assms(2) by (simp add: digit_radix10 takeWhile_eq_all_conv)
  have hd: "hd ds \<noteq> CHR ''-''" "hd ds \<noteq> CHR ''+''"
    using digit_plain(2,3) [OF c] by (simp_all add: ds)
  show ?thesis
    unfolding parseInt_def ws
    using hd nohex assms(1) by (simp add: Let_def all)
qed

lemma foldl_digits_bound:
  assumes "\<forall>c\<in>set ds. is_digit c"
  shows "foldl (\<lambda>a c. a * 10 + the (digit_value c)) acc ds < (acc + 1) * 10 ^ length ds"
  using assms
proof (induction ds arbitrary: acc)
  case Nil
  show ?case by simp
next
  case (Cons c ds)
  from Cons.prems have "is_digit c" by simp
  from digit_value_digit [OF this] obtain v where v: "digit_value c = Some v" "v \<le> 9"
    by (cases "digit_value c") auto
  have "foldl (\<lambda>a c. a * 10 + the (digit_value c)) (acc * 10 + v) ds
        < (acc * 10 + v + 1) * 10 ^ length ds"
    using Cons by simp
  also have "\<dots> \<le> ((acc + 1) * 10) * 10 ^ length ds"
    using v(2) by (intro mult_right_mono) simp_all
  finally show ?case
    by (simp add: v(1) algebra_simps)
qed

lemma digits_value_bound:
  "\<forall>c\<in>set ds. is_digit c \<Longrightarrow> digits_value 10 ds < 10 ^ length ds"
  using foldl_digits_bound [of ds 0] by (simp add: digits_value_def)

lemma div_succ:
  fixes a k :: int
  assumes "0 < k"
  shows "(a + 1) div k = a div k + (if (a + 1) mod k = 0 then 1 else 0)"
proof -
  have split: "a + 1 = k * (a div k) + (a mod k + 1)" by simp
  have r: "0 \<le> a mod k" "a mod k < k" using assms by simp_all
  show ?thesis
  proof (cases "a mod k + 1 = k")
    case True
    then have "a + 1 = k * (a div k + 1)"
      using split by (simp add: algebra_simps)
    then show ?thesis using assms by simp
  next
    case False
    with r have small: "0 \<le> a mod k + 1" "a mod k + 1 < k" by simp_all
    have "(a + 1) div k = (k * (a div k) + (a mod k + 1)) div k" using split by simp
    also have "\<dots> = a div k + (a mod k + 1) div k"
      using assms by (simp only: div_mult_self4)
    also have "\<dots> = a div k" using small by simp
    finally have d: "(a + 1) div k = a div k" .
    have "(a + 1) mod k = (k * (a div k) + (a mod k + 1)) mod k" using split by simp
    also have "\<dots> = (a mod k + 1) mod k" by (simp only: mod_mult_self4)
    also have "\<dots> = a mod k + 1" using small by simp
    finally have "(a + 1) mod k \<noteq> 0" using r by simp
    with d show ?thesis by simp
  qed
qed

lemma mod_succ:
  fixes a k :: int
  assumes "0 < k"
  shows "(a + 1) mod k = (if a mod k + 1 = k then 0 else a mod k + 1)"
proof -
  have split: "a + 1 = k * (a div k) + (a mod k + 1)" by simp
  have r: "0 \<le> a mod k" "a mod k < k" using assms by simp_all
  have "(a + 1) mod k = (k * (a div k) + (a mod k + 1)) mod k" using split by simp
  also have "\<dots> = (a mod k + 1) mod k" by (simp only: mod_mult_self4)
  finally have m: "(a + 1) mod k = (a mod k + 1) mod k" .
  show ?thesis
  proof (cases "a mod k + 1 = k")
    case True
    then show ?thesis using m by simp
  next
    case False
    with r have "0 \<le> a mod k + 1" "a mod k + 1 < k" by simp_all
    then show ?thesis using m False by simp
  qed
qed

lemma mod_shift: "((y::int) - k * c) mod k = y mod k"
  by (metis mod_mult_self1 diff_conv_add_uminus mult_minus_right  mult.commute)

lemma DayFromYear_step:
  "DayFromYear (y + 1) = DayFromYear y + (if InLeapYear y then 366 else 365)"
proof -
  have a: "(y + 1 - 1969) div 4 = (y - 1969) div 4 + (if y mod 4 = 0 then 1 else 0)"
    using div_succ [of 4 "y - 1969"] mod_shift [of y 4 492] by simp
  have b: "(y + 1 - 1901) div 100 = (y - 1901) div 100 + (if y mod 100 = 0 then 1 else 0)"
    using div_succ [of 100 "y - 1901"] mod_shift [of y 100 19] by simp
  have c: "(y + 1 - 1601) div 400 = (y - 1601) div 400 + (if y mod 400 = 0 then 1 else 0)"
    using div_succ [of 400 "y - 1601"] mod_shift [of y 400 4] by simp
  show ?thesis
    unfolding DayFromYear_def InLeapYear_def a b c
    by (auto dest: mod_mod_cancel [of 4 400 y] simp: )
qed

lemma MakeDay_month_carry: "MakeDay y (m + 12) d = MakeDay (y + 1) m d"
proof -
  have "y + (m + 12) div 12 = y + 1 + m div 12" "(m + 12) mod 12 = m mod 12" by simp_all
  then show ?thesis
    unfolding MakeDay_def Let_def by (simp only:)
qed

lemma succ_div_12:
  fixes m :: int
  shows "(m + 1) div 12 = (if m mod 12 = 11 then m div 12 + 1 else m div 12)"
    and "(m + 1) mod 12 = (if m mod 12 = 11 then 0 else m mod 12 + 1)"
proof -
  have r: "0 \<le> m mod 12" by simp
  show m: "(m + 1) mod 12 = (if m mod 12 = 11 then 0 else m mod 12 + 1)"
    using mod_succ [of 12 m] by simp
  show "(m + 1) div 12 = (if m mod 12 = 11 then m div 12 + 1 else m div 12)"
    using div_succ [of 12 m] r unfolding m by simp
qed

lemma month_start_Suc:
  assumes "n < 11"
  shows "month_start leap (Suc n) =
     month_start leap n + [31, if leap then 29 else 28, 31, 30, 31, 30, 31, 31, 30, 31, 30, 31] ! n"
proof -
  have "\<forall>b\<in>set [True, False]. \<forall>k\<in>set [0..<11]. month_start b (Suc k) =
      month_start b k + [31, if b then 29 else 28, 31, 30, 31, 30, 31, 31, 30, 31, 30, 31] ! k"
    by code_simp
  with assms show ?thesis by (cases leap) simp_all
qed

lemma MakeDay_day_carry: "MakeDay y m (d + DaysInMonth y m) = MakeDay y (m + 1) d"
proof (cases "m mod 12 = 11")
  case True
  then have e: "(m + 1) div 12 = m div 12 + 1" "(m + 1) mod 12 = 0"
    by (simp_all add: succ_div_12)
  have a: "y + (m div 12 + 1) = (y + m div 12) + 1" by simp
  show ?thesis
    unfolding MakeDay_def DaysInMonth_def Let_def e True a DayFromYear_step
    by (simp add: month_start_def)
next
  case False
  then have e: "(m + 1) div 12 = m div 12" "(m + 1) mod 12 = m mod 12 + 1"
    by (simp_all add: succ_div_12)
  have "0 \<le> m mod 12" "m mod 12 < 12" by simp_all
  with False have n: "nat (m mod 12) < 11" "nat (m mod 12 + 1) = Suc (nat (m mod 12))"
    by simp_all
  show ?thesis
    unfolding MakeDay_def DaysInMonth_def Let_def e n(2) month_start_Suc [OF n(1)]
    by simp
qed

lemma month_start_bound:
  assumes "n < 12"
  shows "0 \<le> month_start leap n \<and> month_start leap n \<le> 335"
proof -
  have "\<forall>b\<in>set [True, False]. \<forall>k\<in>set [0..<12].
      0 \<le> month_start b k \<and> month_start b k \<le> 335"
    by code_simp
  with assms show ?thesis by (cases leap) simp_all
qed

lemma DayFromYear_bound:
  assumes "- 1 \<le> y" "y \<le> 10007"
  shows "\<bar>DayFromYear y\<bar> \<le> 4000000"
proof -
  define a b c where "a = (y - 1969) div 4" and "b = (y - 1901) div 100"
    and "c = (y - 1601) div 400"
  have "(- 1 - 1969) div 4 \<le> a" "a \<le> (10007 - 1969) div 4"
    "(- 1 - 1901) div 100 \<le> b" "b \<le> (10007 - 1901) div 100"
    "(- 1 - 1601) div 400 \<le> c" "c \<le> (10007 - 1601) div 400"
    unfolding a_def b_def c_def using assms by (intro zdiv_mono1; simp)+
  then have "- 493 \<le> a" "a \<le> 2009" "- 20 \<le> b" "b \<le> 81" "- 5 \<le> c" "c \<le> 21"
    by simp_all
  note bounds = this
  have eq: "DayFromYear y = 365 * (y - 1970) + a - b + c"
    by (simp add: DayFromYear_def a_def b_def c_def)
  have "- 4000000 \<le> 365 * (y - 1970) + a - b + c"
    using bounds assms by simp
  moreover have "365 * (y - 1970) + a - b + c \<le> 4000000"
    using bounds assms by simp
  ultimately show ?thesis
    unfolding eq by (simp add: abs_le_iff)
qed

lemma MakeDay_bound:
  assumes "0 \<le> yr" "yr \<le> 9999" "- 1 \<le> m" "m \<le> 98" "0 \<le> d" "d \<le> 99"
  shows "\<bar>MakeDay yr m d\<bar> \<le> 4001000"
proof -
  define q where "q = m div 12"
  define ms where "ms = month_start (InLeapYear (yr + q)) (nat (m mod 12))"
  define df where "df = DayFromYear (yr + q)"
  have "(- 1) div 12 \<le> q" "q \<le> 98 div 12"
    unfolding q_def using assms(3,4) by (intro zdiv_mono1; simp)+
  then have q: "- 1 \<le> q" "q \<le> 8"
    by simp_all
  have "nat (m mod 12) < 12" by simp
  from month_start_bound [OF this]
  have ms: "0 \<le> ms" "ms \<le> 335" unfolding ms_def by blast+
  have "- 1 \<le> yr + q" "yr + q \<le> 10007"
    using assms(1,2) q by linarith+
  then have df: "\<bar>df\<bar> \<le> 4000000"
    unfolding df_def by (rule DayFromYear_bound)
  have "MakeDay yr m d = df + ms + d - 1"
    by (simp add: MakeDay_def Let_def df_def ms_def q_def)
  moreover have "- 4001000 \<le> df + ms + d - 1" "df + ms + d - 1 \<le> 4001000"
    using df ms assms(5,6) by (simp_all add: abs_le_iff)
  ultimately show ?thesis
    by (simp add: abs_le_iff)
qed

text \<open>
  The day numbers of \<open>MakeDay\<close> are those of the calendar: \<open>DayFromYear\<close> counts the
  days of the years since 1970, \<open>month_start\<close> the days of the months before.
\<close>

lemma DayFromYear_1970: "DayFromYear 1970 = 0"
  by (simp add: DayFromYear_def)

lemma DayFromYear_step_cal: "DayFromYear (y + 1) = DayFromYear y + DaysInYear y"
  by (simp add: DayFromYear_step DaysInYear_def)

lemma DayFromYear_forward:
  "DayFromYear (1970 + int n) = sum_list (map (\<lambda>j. DaysInYear (1970 + int j)) [0..<n])"
proof (induction n)
  case 0
  show ?case by (simp add: DayFromYear_1970)
next
  case (Suc n)
  have "DayFromYear (1970 + int (Suc n)) = DayFromYear ((1970 + int n) + 1)"
    by (simp add: add.assoc)
  also have "\<dots> = DayFromYear (1970 + int n) + DaysInYear (1970 + int n)"
    by (rule DayFromYear_step_cal)
  finally show ?case using Suc by simp
qed

lemma sum_list_upt_front:
  "sum_list (map f [0..<Suc n]) = f 0 + sum_list (map (\<lambda>j. f (Suc j)) [0..<n])"
proof -
  have "[0..<Suc n] = 0 # map Suc [0..<n]"
    by (simp add: upt_conv_Cons map_Suc_upt del: upt_Suc)
  then have "map f [0..<Suc n] = f 0 # map (\<lambda>j. f (Suc j)) [0..<n]"
    by (simp add: comp_def del: upt_Suc)
  then show ?thesis by (simp del: upt_Suc)
qed

lemma DayFromYear_backward:
  "DayFromYear (1970 - int n) = - sum_list (map (\<lambda>j. DaysInYear (1970 - int n + int j)) [0..<n])"
proof (induction n)
  case 0
  show ?case by (simp add: DayFromYear_1970)
next
  case (Suc n)
  let ?y = "1970 - int (Suc n)"
  have y: "?y + 1 = 1970 - int n" by simp
  have "DayFromYear (?y + 1) = DayFromYear ?y + DaysInYear ?y"
    by (rule DayFromYear_step_cal)
  then have a: "DayFromYear ?y = DayFromYear (1970 - int n) - DaysInYear ?y"
    unfolding y by simp
  have "sum_list (map (\<lambda>j. DaysInYear (?y + int j)) [0..<Suc n]) =
      DaysInYear (?y + int 0) + sum_list (map (\<lambda>j. DaysInYear (?y + int (Suc j))) [0..<n])"
    by (rule sum_list_upt_front)
  also have "\<dots> = DaysInYear ?y + sum_list (map (\<lambda>j. DaysInYear (1970 - int n + int j)) [0..<n])"
    by (simp add: algebra_simps)
  finally show ?case
    unfolding a Suc by simp
qed

lemma DayFromYear_calendar: "DayFromYear y = days_to_year y"
proof (cases "1970 \<le> y")
  case True
  then have "y = 1970 + int (nat (y - 1970))" by simp
  then have "DayFromYear y = DayFromYear (1970 + int (nat (y - 1970)))" by simp
  then show ?thesis
    unfolding DayFromYear_forward using True by (simp add: days_to_year_def)
next
  case False
  then have y: "y = 1970 - int (nat (1970 - y))" by simp
  have "DayFromYear y = DayFromYear (1970 - int (nat (1970 - y)))"
    using y by simp
  also have "\<dots> = - sum_list (map (\<lambda>j. DaysInYear (1970 - int (nat (1970 - y)) + int j))
      [0..<nat (1970 - y)])"
    by (rule DayFromYear_backward)
  also have "\<dots> = - sum_list (map (\<lambda>j. DaysInYear (y + int j)) [0..<nat (1970 - y)])"
    using y by simp
  finally show ?thesis
    using False by (simp add: days_to_year_def)
qed

lemma DaysInMonth_table:
  assumes "i < 12"
  shows "DaysInMonth y (int i) =
     [31, if InLeapYear y then 29 else 28, 31, 30, 31, 30, 31, 31, 30, 31, 30, 31] ! i"
proof -
  have "int i div 12 = 0" "int i mod 12 = int i" using assms by simp_all
  then show ?thesis by (simp add: DaysInMonth_def Let_def)
qed

lemma month_start_calendar:
  assumes "k < 12"
  shows "month_start (InLeapYear y) k = days_to_month y k"
proof -
  have t: "\<forall>b\<in>set [True, False]. \<forall>k\<in>set [0..<12]. month_start b k =
      sum_list (map (\<lambda>i. [31, if b then 29 else 28, 31, 30, 31, 30, 31, 31, 30, 31, 30, 31] ! i)
        [0..<k])"
    by code_simp
  have "map (\<lambda>i. DaysInMonth y (int i)) [0..<k] =
      map (\<lambda>i. [31, if InLeapYear y then 29 else 28, 31, 30, 31, 30, 31, 31, 30, 31, 30, 31] ! i)
        [0..<k]"
    using assms by (intro map_cong refl DaysInMonth_table) simp
  then have "days_to_month y k = sum_list (map (\<lambda>i. [31, if InLeapYear y then 29 else 28, 31, 30, 31, 30, 31, 31, 30, 31, 30, 31] ! i)
        [0..<k])"
    by (simp only: days_to_month_def)
  moreover have "month_start (InLeapYear y) k = sum_list (map (\<lambda>i. [31, if InLeapYear y then 29 else 28, 31, 30, 31, 30, 31, 31, 30, 31, 30, 31] ! i)
        [0..<k])"
    using t assms by (cases "InLeapYear y") simp_all
  ultimately show ?thesis by simp
qed

lemma MakeDay_calendar:
  "MakeDay y m d =
     days_to_year (y + m div 12) + days_to_month (y + m div 12) (nat (m mod 12)) + d - 1"
proof -
  have "nat (m mod 12) < 12" by simp
  from month_start_calendar [OF this] show ?thesis
    by (simp add: MakeDay_def Let_def DayFromYear_calendar)
qed

lemma MakeDay_january: "MakeDay y 12 d = days_to_year (y + 1) + d - 1"
  unfolding MakeDay_calendar by (simp add: days_to_month_def)

section \<open>Parsing the date of a file name\<close>

lemma slice_digits:
  assumes "8 \<le> length b" "\<forall>c\<in>set (take 8 b). is_digit c" "i < j" "j \<le> 8"
  shows "slice (slice b 0 8) i j \<noteq> [] \<and> (\<forall>c\<in>set (slice (slice b 0 8) i j). is_digit c)
     \<and> length (slice (slice b 0 8) i j) = j - i"
proof -
  have "set (slice (slice b 0 8) i j) \<subseteq> set (take 8 b)"
    unfolding slice_def by (auto dest!: in_set_takeD in_set_dropD)
  moreover have "length (slice (slice b 0 8) i j) = j - i"
    using assms by (simp add: slice_def)
  ultimately show ?thesis
    using assms by auto
qed

lemma field_value:
  assumes "8 \<le> length b" "\<forall>c\<in>set (take 8 b). is_digit c" "i < j" "j \<le> 8"
  shows "parseInt (slice (slice b 0 8) i j) 0 = Some (int (digits_value 10 (slice (slice b 0 8) i j)))"
    and "digits_value 10 (slice (slice b 0 8) i j) < 10 ^ (j - i)"
proof -
  from slice_digits [OF assms] have ne: "slice (slice b 0 8) i j \<noteq> []"
    and dig: "\<forall>c\<in>set (slice (slice b 0 8) i j). is_digit c"
    and len: "length (slice (slice b 0 8) i j) = j - i" by blast+
  show "parseInt (slice (slice b 0 8) i j) 0 = Some (int (digits_value 10 (slice (slice b 0 8) i j)))"
    using ne dig by (rule parseInt_digits)
  show "digits_value 10 (slice (slice b 0 8) i j) < 10 ^ (j - i)"
    using digits_value_bound [OF dig] len by simp
qed

lemma full_year_range: "0 \<le> y \<Longrightarrow> y \<le> 9999 \<Longrightarrow> 0 \<le> full_year y \<and> full_year y \<le> 9999"
  by (simp add: full_year_def)

text \<open>
  Eight leading digits parse to three numbers, and the date built from them is valid in
  every time zone whose offset is at most a day.
\<close>

lemma parsedDate_of_digits:
  assumes len: "8 \<le> length (basename path)"
    and dig: "\<forall>c\<in>set (take 8 (basename path)). is_digit c"
    and tz: "\<forall>t. \<bar>utc t - t\<bar> \<le> msPerDay"
  defines "dateStr \<equiv> slice (basename path) 0 8"
  defines "Y \<equiv> int (digits_value 10 (slice dateStr 0 4))"
    and "M \<equiv> int (digits_value 10 (slice dateStr 4 6))"
    and "D \<equiv> int (digits_value 10 (slice dateStr 6 8))"
  shows "try_parse utc dateStr = Inr (parsedDate utc path)"
    and "parsedDate utc path = Time_Value (utc (MakeDay (full_year Y) (M - 1) D * msPerDay))"
proof -
  have y: "parseInt (slice dateStr 0 4) 0 = Some Y" and yb: "Y < 10 ^ 4"
    using field_value [OF len dig, of 0 4] by (simp_all add: Y_def dateStr_def)
  have m: "parseInt (slice dateStr 4 6) 0 = Some M" and mb: "M < 10 ^ 2"
    using field_value [OF len dig, of 4 6] by (simp_all add: M_def dateStr_def)
  have d: "parseInt (slice dateStr 6 8) 0 = Some D" and db: "D < 10 ^ 2"
    using field_value [OF len dig, of 6 8] by (simp_all add: D_def dateStr_def)
  have nonneg: "0 \<le> Y" "0 \<le> M" "0 \<le> D"
    by (simp_all add: Y_def M_def D_def)
  have fy: "0 \<le> full_year Y" "full_year Y \<le> 9999"
    using full_year_range [of Y] nonneg yb by simp_all
  define t where "t = MakeDay (full_year Y) (M - 1) D * msPerDay"
  have "\<bar>MakeDay (full_year Y) (M - 1) D\<bar> \<le> 4001000"
    using fy nonneg mb db by (intro MakeDay_bound) simp_all
  then have "\<bar>t\<bar> \<le> 4001000 * msPerDay"
    unfolding t_def by (simp add: abs_mult msPerDay_def)
  moreover have "\<bar>utc t - t\<bar> \<le> msPerDay" using tz by blast
  ultimately have "\<bar>utc t\<bar> \<le> 4001001 * msPerDay" by linarith
  then have clip: "TimeClip (utc t) = Time_Value (utc t)"
    by (simp add: TimeClip_def msPerDay_def)
  have tp: "try_parse utc dateStr = Inr (Time_Value (utc t))"
    unfolding try_parse_def Let_def y m d newDate_def
    using clip by (simp add: full_year_def t_def)
  then have pd: "parsedDate utc path = Time_Value (utc t)"
    by (simp add: parsedDate_def parse_item_def Let_def dateStr_def catch_fallback_def)
  show "try_parse utc dateStr = Inr (parsedDate utc path)"
    using tp pd by simp
  show "parsedDate utc path = Time_Value (utc (MakeDay (full_year Y) (M - 1) D * msPerDay))"
    using pd by (simp add: t_def)
qed

text \<open>Every path the locator returns has a valid parsed date.\<close>

lemma name_shape_digits:
  "name_shape es b \<Longrightarrow> 8 \<le> length b \<and> (\<forall>c\<in>set (take 8 b). is_digit c)"
  unfolding name_shape_def by auto

lemma locator_results_have_dates:
  assumes run: "searchForImages fg directory extensions = (notice, Inr result)"
    and tz: "\<forall>t. \<bar>utc t - t\<bar> \<le> msPerDay"
    and p: "p \<in> set result"
  shows "parsedDate utc p \<noteq> Invalid_Date"
proof -
  obtain found where fg: "fg (patterns extensions) (options directory) = Inr found"
    using run
    by (cases "fg (patterns extensions) (options directory)") (simp_all add: searchForImages_Inl)
  have "searchForImages fg directory extensions =
      (duplicate_notice (laters file_key {} (matchedFiles found)),
       Inr (firsts file_key {} (matchedFiles found)))"
    using fg by (rule searchForImages_Inr)
  with run have "result = firsts file_key {} (matchedFiles found)"
    by simp
  with p have "p \<in> set (matchedFiles found)"
    by (simp add: firsts_keys)
  then have "name_shape [''jpg'', ''jpeg'', ''png''] (basename p)"
    by (simp add: matchedFiles_def dateRegex_test_shape)
  then have "8 \<le> length (basename p)" "\<forall>c\<in>set (take 8 (basename p)). is_digit c"
    using name_shape_digits by blast+
  from parsedDate_of_digits(2) [OF this tz] show ?thesis by simp
qed

text \<open>Dates out of range and the days of the calendar, evaluated on UTC.\<close>

lemma calendar_examples:
  "days_to_month 2021 2 = 59"
  "days_to_month 2020 2 = 60"
  "parsedDate utc_zone ''/p/20211301.jpg'' = Time_Value 1640995200000"
  "parsedDate utc_zone ''/p/20220101.jpg'' = Time_Value 1640995200000"
  "parsedDate utc_zone ''/p/20210230.jpg'' = Time_Value 1614643200000"
  "parsedDate utc_zone ''/p/20210302.jpg'' = Time_Value 1614643200000"
  "parsedDate utc_zone ''/p/20200230.jpg'' = parsedDate utc_zone ''/p/20200301.jpg''"
  "parsedDate utc_zone ''/p/20210100.jpg'' = parsedDate utc_zone ''/p/20201231.jpg''"
  "parsedDate utc_zone ''/p/20210001.jpg'' = parsedDate utc_zone ''/p/20201201.jpg''"
  "parsedDate utc_zone ''/p/19700101.jpg'' = Time_Value 0"
  by code_simp+

lemma days_to_year_2022: "days_to_year 2022 = 18993"
  unfolding DayFromYear_calendar [symmetric] by (simp add: DayFromYear_def)

text \<open>
  Claim C10. For every path whose basename begins with 8 decimal digits, whatever the month
  and day fields are, and in every time zone (offset of at most a day): the \<open>try\<close> block
  returns normally, so the epoch fallback is not taken, and the parsed date is the valid date
  \<open>MakeDay\<close> computes from the year (a year field from 0 to 99 meaning 1900 to 1999), the
  month field minus one and the day field. The day number \<open>MakeDay\<close> computes is that of the
  calendar: with the months carried into the year (twelve to a year), the days of the years
  from 1970 to that year, plus the days of the months of that year before that month, plus
  the day of the month less one. So month 13 of year \<open>Y\<close> is January of \<open>Y + 1\<close>: its day
  \<open>d\<close> is the day \<open>d - 1\<close> after the first day of \<open>Y + 1\<close>; twelve months more are the
  same month of the next year, and a day beyond the end of a month is that day of the
  following month. On UTC, \<open>20211301\<close> is 1 January 2022 (1640995200000 ms) as is
  \<open>20220101\<close>, and \<open>20210230\<close> is 2 March 2021 (1614643200000 ms) as is \<open>20210302\<close>.
\<close>

theorem parse_item_rolls_over:
  assumes len: "8 \<le> length (basename path)"
    and dig: "\<forall>c\<in>set (take 8 (basename path)). is_digit c"
    and tz: "\<forall>t. \<bar>utc t - t\<bar> \<le> msPerDay"
  defines "dateStr \<equiv> slice (basename path) 0 8"
  defines "Y \<equiv> int (digits_value 10 (slice dateStr 0 4))"
    and "M \<equiv> int (digits_value 10 (slice dateStr 4 6))"
    and "D \<equiv> int (digits_value 10 (slice dateStr 6 8))"
  shows "try_parse utc dateStr = Inr (parsedDate utc path) \<and>
         parsedDate utc path = Time_Value (utc (MakeDay (full_year Y) (M - 1) D * msPerDay)) \<and>
         parsedDate utc path \<noteq> Invalid_Date \<and>
         MakeDay y m d =
           days_to_year (y + m div 12) + days_to_month (y + m div 12) (nat (m mod 12)) + d - 1 \<and>
         MakeDay y 12 d = days_to_year (y + 1) + d - 1 \<and>
         MakeDay y (m + 12) d = MakeDay (y + 1) m d \<and>
         MakeDay y m (d + DaysInMonth y m) = MakeDay y (m + 1) d \<and>
         parsedDate utc_zone ''/p/20211301.jpg'' = Time_Value 1640995200000 \<and>
         parsedDate utc_zone ''/p/20220101.jpg'' = Time_Value 1640995200000 \<and>
         parsedDate utc_zone ''/p/20210230.jpg'' = Time_Value 1614643200000 \<and>
         parsedDate utc_zone ''/p/20210302.jpg'' = Time_Value 1614643200000"
proof -
  have a: "try_parse utc dateStr = Inr (parsedDate utc path)"
    unfolding dateStr_def using len dig tz by (rule parsedDate_of_digits(1))
  have b: "parsedDate utc path =
      Time_Value (utc (MakeDay (full_year Y) (M - 1) D * msPerDay))"
    unfolding Y_def M_def D_def dateStr_def using len dig tz by (rule parsedDate_of_digits(2))
  then have c: "parsedDate utc path \<noteq> Invalid_Date" by simp
  have e: "MakeDay y m d =
      days_to_year (y + m div 12) + days_to_month (y + m div 12) (nat (m mod 12)) + d - 1"
    by (rule MakeDay_calendar)
  have f: "MakeDay y 12 d = days_to_year (y + 1) + d - 1"
    by (rule MakeDay_january)
  have g: "MakeDay y (m + 12) d = MakeDay (y + 1) m d"
    by (rule MakeDay_month_carry)
  have h: "MakeDay y m (d + DaysInMonth y m) = MakeDay y (m + 1) d"
    by (rule MakeDay_day_carry)
  from a b c e f g h calendar_examples(3-6) show ?thesis by (intro conjI)
qed

text \<open>
  Claim C10, witness: \<open>20211301.jpg\<close> is dated day 18993 after the epoch, the first day of
  2022.
\<close>

theorem parse_item_rolls_over_witness:
  "parsedDate utc_zone ''/p/20211301.jpg'' = Time_Value (18993 * 86400000) \<and>
   MakeDay 2021 12 1 = 18993 \<and> days_to_year 2022 = 18993 \<and>
   try_parse utc_zone ''20211301'' = Inr (Time_Value 1640995200000)"
proof -
  have len: "8 \<le> length (basename ''/p/20211301.jpg'')" by code_simp
  have dig: "\<forall>c\<in>set (take 8 (basename ''/p/20211301.jpg'')). is_digit c" by code_simp
  have tz: "\<forall>t. \<bar>utc_zone t - t\<bar> \<le> msPerDay" by (simp add: utc_zone_def msPerDay_def)
  have f: "full_year (int (digits_value 10 (slice ''20211301'' 0 4))) = 2021"
    "int (digits_value 10 (slice ''20211301'' 4 6)) - 1 = 12"
    "int (digits_value 10 (slice ''20211301'' 6 8)) = 1"
    by code_simp+
  have s: "slice (basename ''/p/20211301.jpg'') 0 8 = ''20211301''" by code_simp
  from parse_item_rolls_over [OF len dig tz, of 2021 0 1]
  have t: "try_parse utc_zone ''20211301'' = Inr (parsedDate utc_zone ''/p/20211301.jpg'')"
    and a: "parsedDate utc_zone ''/p/20211301.jpg'' =
      Time_Value (utc_zone (MakeDay 2021 12 1 * msPerDay))"
    and b: "MakeDay 2021 12 1 = days_to_year 2022"
    unfolding s f by simp_all
  from b have m: "MakeDay 2021 12 1 = 18993"
    by (simp add: days_to_year_2022)
  from a have p: "parsedDate utc_zone ''/p/20211301.jpg'' = Time_Value (18993 * 86400000)"
    unfolding m by (simp add: utc_zone_def msPerDay_def)
  from t have "try_parse utc_zone ''20211301'' = Inr (Time_Value 1640995200000)"
    unfolding p by simp
  with p m days_to_year_2022 show ?thesis by (intro conjI)
qed

text \<open>
  Nothing in the \<open>try\<close> block throws, whatever the string: \<open>slice\<close> and \<open>parseInt\<close> return
  for every string and the \<open>Date\<close> constructor for every number. A name without digits (which
  the locator never returns) parses to \<open>NaN\<close> and gives an invalid date.
\<close>

lemma try_parse_never_raises:
  "(\<forall>err. try_parse utc dateStr \<noteq> Inl err) \<and>
   try_parse utc (slice (basename ''/p/abcdefgh.jpg'') 0 8) = Inr Invalid_Date \<and>
   parsedDate utc ''/p/abcdefgh.jpg'' = Invalid_Date \<and>
   parsedDate utc ''/p/abcdefgh.jpg'' \<noteq> epoch"
proof -
  have "\<forall>err. try_parse utc dateStr \<noteq> Inl err"
    by (simp add: try_parse_def Let_def)
  moreover
  have "parseInt (slice (slice (basename ''/p/abcdefgh.jpg'') 0 8) 0 4) 0 = None"
    by code_simp
  then have t: "try_parse utc (slice (basename ''/p/abcdefgh.jpg'') 0 8) = Inr Invalid_Date"
    by (simp add: try_parse_def newDate_def Let_def)
  then have "parsedDate utc ''/p/abcdefgh.jpg'' = Invalid_Date"
    by (simp add: parsedDate_def parse_item_def Let_def catch_fallback_def)
  ultimately show ?thesis
    using t by (simp add: epoch_def)
qed

section \<open>The day difference\<close>

lemma ceil_div_real: "0 < y \<Longrightarrow> ceil_div x y = \<lceil>real_of_int x / real_of_int y\<rceil>"
  by (simp add: ceil_div_def ceiling_divide_eq_div)

lemma ceil_div_iff:
  assumes "0 < y"
  shows "ceil_div x y = n \<longleftrightarrow> (n - 1) * y < x \<and> x \<le> n * y"
proof -
  have "\<lceil>real_of_int x / real_of_int y\<rceil> = n \<longleftrightarrow>
      real_of_int n - 1 < real_of_int x / real_of_int y \<and> real_of_int x / real_of_int y \<le> real_of_int n"
    by (rule ceiling_eq_iff)
  also have "real_of_int n - 1 < real_of_int x / real_of_int y \<longleftrightarrow> (real_of_int n - 1) * real_of_int y < real_of_int x"
    using assms by (simp add: pos_less_divide_eq)
  also have "real_of_int x / real_of_int y \<le> real_of_int n \<longleftrightarrow> real_of_int x \<le> real_of_int n * real_of_int y"
    using assms by (simp add: pos_divide_le_eq)
  also have "(real_of_int n - 1) * real_of_int y < real_of_int x \<longleftrightarrow> (n - 1) * y < x"
    by (metis of_int_1 of_int_diff of_int_less_iff of_int_mult)
  also have "real_of_int x \<le> real_of_int n * real_of_int y \<longleftrightarrow> x \<le> n * y"
    by (metis of_int_le_iff of_int_mult)
  finally show ?thesis
    using assms by (simp add: ceil_div_real)
qed

text \<open>
  The dates parsed from the names the locator returns lie within 4001001 days of the epoch:
  each is a time value a \<open>Date\<close> can hold, and any two of them differ by less than \<open>2^53\<close>
  milliseconds.
\<close>

lemma parsedDate_range:
  assumes len: "8 \<le> length (basename path)"
    and dig: "\<forall>c\<in>set (take 8 (basename path)). is_digit c"
    and tz: "\<forall>t. \<bar>utc t - t\<bar> \<le> msPerDay"
  shows "\<exists>t. parsedDate utc path = Time_Value t \<and> \<bar>t\<bar> \<le> 4001001 * msPerDay"
proof -
  define dateStr where "dateStr = slice (basename path) 0 8"
  define Y where "Y = int (digits_value 10 (slice dateStr 0 4))"
  define M where "M = int (digits_value 10 (slice dateStr 4 6))"
  define D where "D = int (digits_value 10 (slice dateStr 6 8))"
  have yb: "Y < 10 ^ 4"
    using field_value(2) [OF len dig, of 0 4] by (simp add: Y_def dateStr_def)
  have mb: "M < 10 ^ 2"
    using field_value(2) [OF len dig, of 4 6] by (simp add: M_def dateStr_def)
  have db: "D < 10 ^ 2"
    using field_value(2) [OF len dig, of 6 8] by (simp add: D_def dateStr_def)
  have nonneg: "0 \<le> Y" "0 \<le> M" "0 \<le> D"
    by (simp_all add: Y_def M_def D_def)
  have fy: "0 \<le> full_year Y" "full_year Y \<le> 9999"
    using full_year_range [of Y] nonneg yb by simp_all
  define t where "t = MakeDay (full_year Y) (M - 1) D * msPerDay"
  have "\<bar>MakeDay (full_year Y) (M - 1) D\<bar> \<le> 4001000"
    using fy nonneg mb db by (intro MakeDay_bound) simp_all
  then have "\<bar>t\<bar> \<le> 4001000 * msPerDay"
    unfolding t_def by (simp add: abs_mult msPerDay_def)
  moreover have "\<bar>utc t - t\<bar> \<le> msPerDay" using tz by blast
  ultimately have b: "\<bar>utc t\<bar> \<le> 4001001 * msPerDay" by linarith
  have "parsedDate utc path = Time_Value (utc t)"
    using parsedDate_of_digits(2) [OF len dig tz]
    by (simp add: t_def Y_def M_def D_def dateStr_def)
  with b show ?thesis by blast
qed

lemma locator_dates_in_range:
  assumes run: "searchForImages fg directory extensions = (notice, Inr result)"
    and tz: "\<forall>t. \<bar>utc t - t\<bar> \<le> msPerDay"
    and p: "p \<in> set result" and q: "q \<in> set result"
  shows "\<exists>t1 t2. parsedDate utc p = Time_Value t1 \<and> parsedDate utc q = Time_Value t2 \<and>
           \<bar>t1\<bar> \<le> 8640000000000000 \<and> \<bar>t2\<bar> \<le> 8640000000000000 \<and>
           \<bar>t2 - t1\<bar> \<le> 9007199254740992"
proof -
  obtain found where fg: "fg (patterns extensions) (options directory) = Inr found"
    using run
    by (cases "fg (patterns extensions) (options directory)") (simp_all add: searchForImages_Inl)
  have "searchForImages fg directory extensions =
      (duplicate_notice (laters file_key {} (matchedFiles found)),
       Inr (firsts file_key {} (matchedFiles found)))"
    using fg by (rule searchForImages_Inr)
  with run have res: "result = firsts file_key {} (matchedFiles found)"
    by simp
  have shape: "8 \<le> length (basename x) \<and> (\<forall>c\<in>set (take 8 (basename x)). is_digit c)"
    if "x \<in> set result" for x
  proof -
    from that res have "x \<in> set (matchedFiles found)"
      by (simp add: firsts_keys)
    then have "name_shape [''jpg'', ''jpeg'', ''png''] (basename x)"
      by (simp add: matchedFiles_def dateRegex_test_shape)
    then show ?thesis by (rule name_shape_digits)
  qed
  from shape [OF p] have "8 \<le> length (basename p)" "\<forall>c\<in>set (take 8 (basename p)). is_digit c"
    by blast+
  from parsedDate_range [OF this tz]
  obtain t1 where t1: "parsedDate utc p = Time_Value t1" "\<bar>t1\<bar> \<le> 4001001 * msPerDay"
    by blast
  from shape [OF q] have "8 \<le> length (basename q)" "\<forall>c\<in>set (take 8 (basename q)). is_digit c"
    by blast+
  from parsedDate_range [OF this tz]
  obtain t2 where t2: "parsedDate utc q = Time_Value t2" "\<bar>t2\<bar> \<le> 4001001 * msPerDay"
    by blast
  have b: "\<bar>t1\<bar> \<le> 345686486400000" "\<bar>t2\<bar> \<le> 345686486400000"
    using t1(2) t2(2) by (simp_all add: msPerDay_def)
  then have "\<bar>t1\<bar> \<le> 8640000000000000" "\<bar>t2\<bar> \<le> 8640000000000000"
    "\<bar>t2 - t1\<bar> \<le> 9007199254740992"
    by linarith+
  with t1(1) t2(1) show ?thesis by blast
qed

text \<open>
  Claim C6. For two valid dates, \<open>dayDifference\<close> is the ceiling of their difference in
  milliseconds divided by the milliseconds of a day: the least \<open>n\<close> with
  \<open>t2 - t1 \<le> n * msPerDay\<close>. It is 0 for equal dates and 9 from 2021-01-01 to 2021-01-10.
  With an invalid date the result is \<open>NaN\<close>. The time values are those a \<open>Date\<close> can hold
  (at most 8640000000000000 ms either side of the epoch) and their difference is at most
  \<open>2^53\<close>, the range in which the subtraction of the source is exact and its rounded
  quotient has the ceiling of the exact one; every two dates parsed from 8 digits are within
  it.
\<close>

theorem dayDifference_is_ceiling:
  assumes "\<bar>t1\<bar> \<le> 8640000000000000" "\<bar>t2\<bar> \<le> 8640000000000000"
    and "\<bar>t2 - t1\<bar> \<le> 9007199254740992"
  shows "dayDifference (Time_Value t1) (Time_Value t2) =
     Some \<lceil>real_of_int (t2 - t1) / real_of_int msPerDay\<rceil> \<and>
   (dayDifference (Time_Value t1) (Time_Value t2) = Some n \<longleftrightarrow>
      (n - 1) * msPerDay < t2 - t1 \<and> t2 - t1 \<le> n * msPerDay) \<and>
   dayDifference (Time_Value t) (Time_Value t) = Some 0 \<and>
   dayDifference (newDate utc_zone (Some 2021) (Some 0) (Some 1))
     (newDate utc_zone (Some 2021) (Some 0) (Some 10)) = Some 9 \<and>
   dayDifference (Time_Value 1609459200000) (Time_Value 1610236800000) = Some 9 \<and>
   dayDifference Invalid_Date d2 = None \<and> dayDifference d1 Invalid_Date = None"
proof -
  have pos: "0 < msPerDay" by (simp add: msPerDay_def)
  have d: "dayDifference (Time_Value a) (Time_Value b) = Some (ceil_div (b - a) msPerDay)" for a b
    by (simp add: dayDifference_def getTime_def msPerDay_def)
  have a: "dayDifference (Time_Value t1) (Time_Value t2) =
      Some \<lceil>real_of_int (t2 - t1) / real_of_int msPerDay\<rceil>"
    unfolding d by (simp only: ceil_div_real [OF pos])
  have b: "dayDifference (Time_Value t1) (Time_Value t2) = Some n \<longleftrightarrow>
      (n - 1) * msPerDay < t2 - t1 \<and> t2 - t1 \<le> n * msPerDay"
    unfolding d using ceil_div_iff [OF pos, of "t2 - t1" n] by simp
  have c: "dayDifference (Time_Value t) (Time_Value t) = Some 0"
    unfolding d by (simp add: ceil_div_def)
  have e: "dayDifference (newDate utc_zone (Some 2021) (Some 0) (Some 1))
     (newDate utc_zone (Some 2021) (Some 0) (Some 10)) = Some 9"
    by code_simp
  have f: "dayDifference (Time_Value 1609459200000) (Time_Value 1610236800000) = Some 9"
    by code_simp
  have g: "dayDifference Invalid_Date d2 = None" "dayDifference d1 Invalid_Date = None"
    by (simp_all add: dayDifference_def getTime_def split: jsdate.splits)
  from a b c e f g show ?thesis by (intro conjI)
qed

text \<open>
  Claim C6, witness: one millisecond beyond nine days is ten days, and a date is 0 days from
  itself.
\<close>

theorem dayDifference_is_ceiling_witness:
  "dayDifference (Time_Value 1609459200000) (Time_Value 1610236800001) = Some 10 \<and>
   dayDifference (Time_Value 1609459200000) (Time_Value 1609459200000) = Some 0"
proof -
  have h: "\<bar>1609459200000 :: int\<bar> \<le> 8640000000000000"
    "\<bar>1610236800001 :: int\<bar> \<le> 8640000000000000"
    "\<bar>1610236800001 - 1609459200000 :: int\<bar> \<le> 9007199254740992"
    by simp_all
  have r: "(10 - 1) * msPerDay < 1610236800001 - 1609459200000 \<and>
      1610236800001 - 1609459200000 \<le> 10 * msPerDay"
    by (simp add: msPerDay_def)
  from dayDifference_is_ceiling [OF h, where n = 10 and t = 1609459200000] r show ?thesis
    by blast
qed

section \<open>Sorting by date\<close>

lemma sort_insert_valid:
  assumes "dateVal x \<noteq> Invalid_Date" "\<forall>y\<in>set ys. dateVal y \<noteq> Invalid_Date"
  shows "sort_insert by_dateVal x ys = insort_key (\<lambda>i. time_of (dateVal i)) x ys"
  using assms
proof (induction ys)
  case Nil
  show ?case by simp
next
  case (Cons y ys)
  from Cons.prems obtain a b where "dateVal x = Time_Value a" "dateVal y = Time_Value b"
    by (cases "dateVal x"; cases "dateVal y") auto
  then have "SortCompare by_dateVal x y \<le> 0 \<longleftrightarrow> time_of (dateVal x) \<le> time_of (dateVal y)"
    by (simp add: SortCompare_def by_dateVal_def getTime_def time_of_def)
  with Cons show ?case by simp
qed

lemma Array_sort_valid:
  assumes "\<forall>y\<in>set xs. dateVal y \<noteq> Invalid_Date"
  shows "Array_sort by_dateVal xs = sort_key (\<lambda>i. time_of (dateVal i)) xs"
  using assms
proof (induction xs)
  case Nil
  show ?case by simp
next
  case (Cons x xs)
  then have "Array_sort by_dateVal xs = sort_key (\<lambda>i. time_of (dateVal i)) xs" by simp
  moreover have "\<forall>y\<in>set (sort_key (\<lambda>i. time_of (dateVal i)) xs). dateVal y \<noteq> Invalid_Date"
    using Cons.prems by simp
  ultimately show ?case
    using Cons.prems by (simp add: sort_insert_valid)
qed

lemma insort_key_map:
  "insort_key f (g x) (map g ys) = map g (insort_key (\<lambda>p. f (g p)) x ys)"
  by (induction ys) auto

lemma sort_key_map: "sort_key f (map g xs) = map g (sort_key (\<lambda>p. f (g p)) xs)"
  by (induction xs) (auto simp: insort_key_map)

lemma fp_parse_item: "fp (parse_item utc p) = p"
  by (simp add: parse_item_def Let_def)

lemma parseDates_sort_key:
  assumes "\<forall>p\<in>set filePaths. parsedDate utc p \<noteq> Invalid_Date" "filePaths \<noteq> []"
  shows "parseDates utc filePaths =
    (let s = sort_key (\<lambda>p. time_of (parsedDate utc p)) filePaths in
     Inr \<lparr>sortedFiles = s, earliestDate = parsedDate utc (hd s),
          latestDate = parsedDate utc (last s)\<rparr>)"
proof -
  let ?k = "\<lambda>p. time_of (parsedDate utc p)"
  have "Array_sort by_dateVal (map (parse_item utc) filePaths) =
      sort_key (\<lambda>i. time_of (dateVal i)) (map (parse_item utc) filePaths)"
    using assms(1) by (intro Array_sort_valid) (simp add: parsedDate_def)
  also have "\<dots> = map (parse_item utc) (sort_key ?k filePaths)"
    by (simp add: sort_key_map parsedDate_def)
  finally have items: "Array_sort by_dateVal (map (parse_item utc) filePaths) =
      map (parse_item utc) (sort_key ?k filePaths)" .
  have ne: "sort_key ?k filePaths \<noteq> []"
    using assms(2) by (metis length_sort length_0_conv)
  show ?thesis
    unfolding parseDates_def items
    using ne by (simp add: Let_def comp_def fp_parse_item hd_map last_map parsedDate_def)
qed


lemma date_le_valid:
  "d1 \<noteq> Invalid_Date \<Longrightarrow> d2 \<noteq> Invalid_Date \<Longrightarrow> date_le d1 d2 \<longleftrightarrow> time_of d1 \<le> time_of d2"
  by (cases d1; cases d2) (simp_all add: date_le_def getTime_def time_of_def)

lemma sorted_wrt_date_le:
  assumes "\<forall>p\<in>set ps. D p \<noteq> Invalid_Date" "sorted (map (\<lambda>p. time_of (D p)) ps)"
  shows "sorted_wrt date_le (map D ps)"
  using assms by (induction ps) (auto simp: date_le_valid)

lemma filter_by_date:
  assumes "\<forall>p\<in>set ps. D p \<noteq> Invalid_Date"
  shows "filter (\<lambda>p. D p = d) ps =
     (case d of Invalid_Date \<Rightarrow> [] | Time_Value t \<Rightarrow> filter (\<lambda>p. time_of (D p) = t) ps)"
proof (cases d)
  case Invalid_Date
  with assms show ?thesis by (simp add: filter_empty_conv)
next
  case (Time_Value t)
  have "filter (\<lambda>p. D p = Time_Value t) ps = filter (\<lambda>p. time_of (D p) = t) ps"
  proof (rule filter_cong [OF refl])
    fix p assume "p \<in> set ps"
    with assms have "D p \<noteq> Invalid_Date" by blast
    then show "(D p = Time_Value t) = (time_of (D p) = t)"
      by (cases "D p") (simp_all add: time_of_def)
  qed
  with Time_Value show ?thesis by simp
qed

text \<open>
  Where every parsed date is valid, \<open>parseDates\<close> sorts by date, keeping the input order
  of the files of one date.
\<close>

lemma parseDates_sorted_stable_valid:
  assumes nonempty: "filePaths \<noteq> []"
    and valid: "\<forall>p\<in>set filePaths. parsedDate utc p \<noteq> Invalid_Date"
  shows "\<exists>r. parseDates utc filePaths = Inr r \<and>
           sorted_wrt date_le (map (parsedDate utc) (sortedFiles r)) \<and>
           (\<forall>i. Suc i < length (sortedFiles r) \<longrightarrow>
              date_le (parsedDate utc (sortedFiles r ! i)) (parsedDate utc (sortedFiles r ! Suc i))) \<and>
           mset (sortedFiles r) = mset filePaths \<and>
           (\<forall>d. filter (\<lambda>p. parsedDate utc p = d) (sortedFiles r) =
                filter (\<lambda>p. parsedDate utc p = d) filePaths)"
proof -
  let ?k = "\<lambda>p. time_of (parsedDate utc p)"
  let ?s = "sort_key ?k filePaths"
  let ?r = "\<lparr>sortedFiles = ?s, earliestDate = parsedDate utc (hd ?s),
            latestDate = parsedDate utc (last ?s)\<rparr>"
  have run: "parseDates utc filePaths = Inr ?r"
    using parseDates_sort_key [OF valid nonempty] by (simp add: Let_def)
  have valid': "\<forall>p\<in>set ?s. parsedDate utc p \<noteq> Invalid_Date"
    using valid by simp
  have srt: "sorted_wrt date_le (map (parsedDate utc) ?s)"
    using valid' by (rule sorted_wrt_date_le) simp
  have adj: "date_le (parsedDate utc (?s ! i)) (parsedDate utc (?s ! Suc i))"
    if "Suc i < length ?s" for i
  proof -
    from that have "i < Suc i" "Suc i < length (map (parsedDate utc) ?s)" by simp_all
    from sorted_wrt_nth_less [OF srt this] that show ?thesis by simp
  qed
  have stable: "filter (\<lambda>p. parsedDate utc p = d) ?s = filter (\<lambda>p. parsedDate utc p = d) filePaths"
    for d
    unfolding filter_by_date [of ?s "parsedDate utc", OF valid']
      filter_by_date [of filePaths "parsedDate utc", OF valid]
    by (cases d) (simp_all add: sort_key_stable)
  have "sorted_wrt date_le (map (parsedDate utc) (sortedFiles ?r))"
    using srt by simp
  moreover have "\<forall>i. Suc i < length (sortedFiles ?r) \<longrightarrow>
      date_le (parsedDate utc (sortedFiles ?r ! i)) (parsedDate utc (sortedFiles ?r ! Suc i))"
    using adj by simp
  moreover have "mset (sortedFiles ?r) = mset filePaths"
    by simp
  moreover have "\<forall>d. filter (\<lambda>p. parsedDate utc p = d) (sortedFiles ?r) =
      filter (\<lambda>p. parsedDate utc p = d) filePaths"
    using stable by simp
  ultimately show ?thesis
    using run by blast
qed

text \<open>Three files on two days, found by the locator and run through \<open>parseDates\<close> on UTC.\<close>

lemma fg_trip_run:
  "searchForImages fg_trip ''/trip'' [''.jpg''] =
     ([], Inr [''/trip/b/20210110.jpg'', ''/trip/a/20210101_b.jpg'', ''/trip/a/20210101_a.jpg''])"
  by code_simp

lemma parseDates_trip:
  "parseDates utc_zone [''/trip/b/20210110.jpg'', ''/trip/a/20210101_b.jpg'', ''/trip/a/20210101_a.jpg''] =
     Inr \<lparr>sortedFiles = [''/trip/a/20210101_b.jpg'', ''/trip/a/20210101_a.jpg'', ''/trip/b/20210110.jpg''],
          earliestDate = Time_Value 1609459200000, latestDate = Time_Value 1610236800000\<rparr>"
  by code_simp

text \<open>
  Claim C4. \<open>parseDates\<close> is called with the result of the locator only. For every non-empty
  list the locator returns, in every time zone (offset of at most a day), \<open>parseDates\<close>
  returns \<open>sortedFiles\<close> sorted non-decreasing by parsed date: every earlier date is \<open><=\<close>
  every later one, in particular for all adjacent pairs. The list is a rearrangement of the
  input, and the sort is stable: the files with any one parsed date keep their input order.
\<close>

theorem parseDates_sorted_stable:
  assumes run: "searchForImages fg directory extensions = (notice, Inr filePaths)"
    and nonempty: "filePaths \<noteq> []"
    and tz: "\<forall>t. \<bar>utc t - t\<bar> \<le> msPerDay"
  shows "\<exists>r. parseDates utc filePaths = Inr r \<and>
           sorted_wrt date_le (map (parsedDate utc) (sortedFiles r)) \<and>
           (\<forall>i. Suc i < length (sortedFiles r) \<longrightarrow>
              date_le (parsedDate utc (sortedFiles r ! i)) (parsedDate utc (sortedFiles r ! Suc i))) \<and>
           mset (sortedFiles r) = mset filePaths \<and>
           (\<forall>d. filter (\<lambda>p. parsedDate utc p = d) (sortedFiles r) =
                filter (\<lambda>p. parsedDate utc p = d) filePaths)"
proof -
  have valid: "\<forall>p\<in>set filePaths. parsedDate utc p \<noteq> Invalid_Date"
    using locator_results_have_dates [OF run tz] by blast
  from nonempty valid show ?thesis
    by (rule parseDates_sorted_stable_valid)
qed

text \<open>
  Claim C4, witness: the locator's three files of a trip; the two files of the first day keep
  their order, ahead of the file of the later day.
\<close>

theorem parseDates_sorted_stable_witness:
  "searchForImages fg_trip ''/trip'' [''.jpg''] =
     ([], Inr [''/trip/b/20210110.jpg'', ''/trip/a/20210101_b.jpg'', ''/trip/a/20210101_a.jpg'']) \<and>
   parseDates utc_zone
       [''/trip/b/20210110.jpg'', ''/trip/a/20210101_b.jpg'', ''/trip/a/20210101_a.jpg''] =
     Inr \<lparr>sortedFiles =
            [''/trip/a/20210101_b.jpg'', ''/trip/a/20210101_a.jpg'', ''/trip/b/20210110.jpg''],
          earliestDate = Time_Value 1609459200000, latestDate = Time_Value 1610236800000\<rparr> \<and>
   sorted_wrt date_le (map (parsedDate utc_zone)
     [''/trip/a/20210101_b.jpg'', ''/trip/a/20210101_a.jpg'', ''/trip/b/20210110.jpg''])"
proof -
  let ?ps = "[''/trip/b/20210110.jpg'', ''/trip/a/20210101_b.jpg'', ''/trip/a/20210101_a.jpg'']"
  have ne: "?ps \<noteq> []" by simp
  have tz: "\<forall>t. \<bar>utc_zone t - t\<bar> \<le> msPerDay" by (simp add: utc_zone_def msPerDay_def)
  from parseDates_sorted_stable [OF fg_trip_run ne tz]
  obtain r where r: "parseDates utc_zone ?ps = Inr r"
    and s: "sorted_wrt date_le (map (parsedDate utc_zone) (sortedFiles r))" by blast
  from r have "sortedFiles r =
      [''/trip/a/20210101_b.jpg'', ''/trip/a/20210101_a.jpg'', ''/trip/b/20210110.jpg'']"
    unfolding parseDates_trip by auto
  with s have "sorted_wrt date_le (map (parsedDate utc_zone)
     [''/trip/a/20210101_b.jpg'', ''/trip/a/20210101_a.jpg'', ''/trip/b/20210110.jpg''])" by simp
  with fg_trip_run parseDates_trip show ?thesis by (intro conjI)
qed






section \<open>The Grid Composer Invoker\<close>







section \<open>The pipeline\<close>

lemma firsts_Nil: "firsts key {} xs = [] \<Longrightarrow> xs = []"
  by (cases xs) auto

text \<open>
  Claim C9. When the locator returns no file, \<open>runCli\<close> writes the notice
  \<open>No images found matching the given extensions.\<close> and returns normally: the only
  component called is the locator, neither \<open>parseDates\<close> nor \<open>createMontage\<close> is reached,
  no process is spawned, and the promise resolves.
\<close>

theorem runCli_no_images_found:
  assumes "snd (searchForImages (env_fg e)
                  (if \<not> ans_correctDir ans then env_resolve e [ans_chosenDir ans] else env_cwd e)
                  (ans_extensions ans)) = Inr []"
  shows "runCli e ans =
           \<lparr>console =
              [(Cyan, CHR 0x0A # ''All files should be in yyyymmdd*.{ext} format.'' @ [CHR 0x0A]),
               (Red, ''No images found matching the given extensions.'')],
            console_error = [], spawned = [], steps = [Call_searchForImages],
            outcome = Resolved\<rparr> \<and>
         Call_parseDates \<notin> set (steps (runCli e ans)) \<and>
         Call_createMontage \<notin> set (steps (runCli e ans))"
proof -
  let ?dir = "if \<not> ans_correctDir ans then env_resolve e [ans_chosenDir ans] else env_cwd e"
  obtain found where fg: "env_fg e (patterns (ans_extensions ans)) (options ?dir) = Inr found"
    using assms
    by (cases "env_fg e (patterns (ans_extensions ans)) (options ?dir)")
      (simp_all add: searchForImages_Inl)
  have s: "searchForImages (env_fg e) ?dir (ans_extensions ans) =
      (duplicate_notice (laters file_key {} (matchedFiles found)),
       Inr (firsts file_key {} (matchedFiles found)))"
    using fg by (rule searchForImages_Inr)
  with assms have "firsts file_key {} (matchedFiles found) = []" by simp
  then have "matchedFiles found = []" by (rule firsts_Nil)
  with s have "searchForImages (env_fg e) ?dir (ans_extensions ans) = ([], Inr [])"
    by (simp add: duplicate_notice_def)
  then have "runCli e ans =
           \<lparr>console =
              [(Cyan, CHR 0x0A # ''All files should be in yyyymmdd*.{ext} format.'' @ [CHR 0x0A]),
               (Red, ''No images found matching the given extensions.'')],
            console_error = [], spawned = [], steps = [Call_searchForImages],
            outcome = Resolved\<rparr>"
    by (simp add: runCli_def Let_def)
  then show ?thesis by simp
qed

text \<open>Claim C9, witness: a run in a directory where the glob finds nothing.\<close>

theorem runCli_no_images_found_witness:
  "runCli (photos_env fg_missing_root (spawn_exits 0)) default_answers =
     \<lparr>console =
        [(Cyan, CHR 0x0A # ''All files should be in yyyymmdd*.{ext} format.'' @ [CHR 0x0A]),
         (Red, ''No images found matching the given extensions.'')],
      console_error = [], spawned = [], steps = [Call_searchForImages],
      outcome = Resolved\<rparr>"
proof -
  have "snd (searchForImages (env_fg (photos_env fg_missing_root (spawn_exits 0)))
        (if \<not> ans_correctDir default_answers
         then env_resolve (photos_env fg_missing_root (spawn_exits 0)) [ans_chosenDir default_answers]
         else env_cwd (photos_env fg_missing_root (spawn_exits 0)))
        (ans_extensions default_answers)) = Inr []"
    by (simp add: photos_env_def default_answers_def searchForImages_def fg_missing_root_def
        matchedFiles_def Map_values_def)
  from runCli_no_images_found [OF this] show ?thesis by blast
qed


end
